theory Spec2Isabelle
  imports Main
begin

section \<open>JSON values and JavaScript object operations\<close>

text \<open>
  Token records, the parsed store document and the arguments of the store's methods are
  JavaScript values. The model covers the values that \<^verbatim>\<open>JSON.parse\<close> can produce;
  numbers are taken to be integers, the store does not compute with them.
  An object is its list of own properties in insertion order (JavaScript lists
  integer-like names first; reading a property does not depend on the order); \<^verbatim>\<open>undefined\<close> (the
  result of reading an absent property) is \<open>None\<close> of type \<open>json option\<close>. An absent
  or \<^verbatim>\<open>undefined\<close> argument is passed as \<open>JNull\<close>: the code tests arguments only
  by truthiness and by \<^verbatim>\<open>Array.isArray\<close>, which do not tell the two apart.
\<close>

datatype json =
    JNull
  | JBool bool
  | JNum int
  | JStr string
  | JArr "json list"
  | JObj "(string \<times> json) list"

fun truthy :: "json \<Rightarrow> bool" where
  "truthy JNull = False"
| "truthy (JBool b) = b"
| "truthy (JNum n) = (n \<noteq> 0)"
| "truthy (JStr s) = (s \<noteq> [])"
| "truthy (JArr xs) = True"
| "truthy (JObj fs) = True"

datatype errcode = EEXIST | EPERM | ENOENT | EACCES | EBUSY | EIO

datatype error = FsError errcode | SyntaxError | TypeError

text \<open>
  \<^verbatim>\<open>v.name\<close>: reading a property of \<^verbatim>\<open>null\<close> throws a TypeError; a primitive or
  an array has none of the property names the store reads (\<^verbatim>\<open>salt\<close>,
  \<^verbatim>\<open>tokens\<close>, \<^verbatim>\<open>refresh_token\<close>).
\<close>

fun get_prop :: "json \<Rightarrow> string \<Rightarrow> error + json option" where
  "get_prop JNull k = Inl TypeError"
| "get_prop (JObj fs) k = Inr (map_of fs k)"
| "get_prop v k = Inr None"

text \<open>\<^verbatim>\<open>o[k] = v\<close> on an object: an existing property keeps its place, a new one is appended.\<close>

fun set_prop :: "(string \<times> json) list \<Rightarrow> string \<Rightarrow> json \<Rightarrow> (string \<times> json) list" where
  "set_prop [] k v = [(k, v)]"
| "set_prop ((k', v') # fs) k v = (if k' = k then (k, v) # fs else (k', v') # set_prop fs k v)"

fun digit_char :: "nat \<Rightarrow> char" where
  "digit_char n = ''0123456789'' ! n"

fun decimal :: "nat \<Rightarrow> string" where
  "decimal n = (if n < 10 then [digit_char n] else decimal (n div 10) @ [digit_char (n mod 10)])"

declare decimal.simps [simp del]

definition index_keys :: "nat \<Rightarrow> string list" where
  "index_keys n = map decimal [0..<n]"

text \<open>
  The own enumerable properties that object spread and rest destructuring copy: the
  fields of an object, the indexed elements of an array, the indexed characters of a
  string, nothing for the other primitives.
\<close>

fun own_props :: "json \<Rightarrow> (string \<times> json) list" where
  "own_props (JObj fs) = fs"
| "own_props (JArr xs) = zip (index_keys (length xs)) xs"
| "own_props (JStr s) = zip (index_keys (length s)) (map (\<lambda>c. JStr [c]) s)"
| "own_props v = []"

text \<open>\<^verbatim>\<open>{ ...a, ...b }\<close>: the properties of the sources are defined one after another on a new object.\<close>

definition object_spread :: "(string \<times> json) list list \<Rightarrow> (string \<times> json) list" where
  "object_spread srcs = foldl (\<lambda>obj (k, v). set_prop obj k v) [] (concat srcs)"

text \<open>\<^verbatim>\<open>const { sessionId, ...plain } = t\<close>: the properties of \<open>t\<close> other than \<open>k\<close>.\<close>

definition rest_without :: "string \<Rightarrow> (string \<times> json) list \<Rightarrow> (string \<times> json) list" where
  "rest_without k fs = filter (\<lambda>(k', v). k' \<noteq> k) fs"

text \<open>
  \<^verbatim>\<open>a === b\<close> on property values. Primitives compare by value. Two arrays or objects
  are equal only when they are the same heap object; values here carry no identity, and
  the key field of a record is a string, so composite values compare as different.
\<close>

fun strict_eq :: "json option \<Rightarrow> json option \<Rightarrow> bool" where
  "strict_eq None b = (b = None)"
| "strict_eq (Some JNull) b = (b = Some JNull)"
| "strict_eq (Some (JBool x)) b = (b = Some (JBool x))"
| "strict_eq (Some (JNum x)) b = (b = Some (JNum x))"
| "strict_eq (Some (JStr x)) b = (b = Some (JStr x))"
| "strict_eq (Some (JArr xs)) b = False"
| "strict_eq (Some (JObj fs)) b = False"

section \<open>The file system, the clock, the logger and the store instance\<close>

text \<open>
  File contents are modelled up to \<^verbatim>\<open>JSON.parse\<close>: \<open>JsonText j\<close> is the text
  \<^verbatim>\<open>JSON.stringify(j, null, 2)\<close> (any text that parses to \<open>j\<close>), \<open>EmptyText\<close>
  is the empty string and \<open>BadText\<close> is a text that \<^verbatim>\<open>JSON.parse\<close> rejects.
\<close>

datatype contents = EmptyText | JsonText json | BadText

definition JSON_stringify :: "json \<Rightarrow> contents" where
  "JSON_stringify j = JsonText j"

fun JSON_parse :: "contents \<Rightarrow> error + json" where
  "JSON_parse (JsonText j) = Inr j"
| "JSON_parse EmptyText = Inl SyntaxError"
| "JSON_parse BadText = Inl SyntaxError"

text \<open>\<^verbatim>\<open>data || '{}'\<close>\<close>

fun or_empty_object :: "contents \<Rightarrow> contents" where
  "or_empty_object EmptyText = JsonText (JObj [])"
| "or_empty_object t = t"

datatype path = StoreFile | TempFile

datatype fs_op =
    Mkdir
  | Access path
  | WriteFile path contents
  | ReadFile path
  | Open path
  | HandleWrite contents
  | HandleSync
  | HandleClose
  | Rename path path
  | Unlink path

datatype fs_result = Failed errcode | Done | Data contents

datatype level = INFO | WARN | ERROR

datatype log_msg =
    Created_file
  | Migrated_file
  | Salt_added
  | Salt_read_failed error
  | Format_abnormal
  | Read_failed error
  | Save_failed error
  | Write_queue_failed error
  | Merge_skipped
  | Merge_queue_failed error

text \<open>
  One state for everything an operation of the store can read or change:
  \<^item> \<open>store_file\<close>: the file at \<^verbatim>\<open>this.filePath\<close> (\<open>None\<close>: absent);
    \<open>temp_file\<close>: the file at the \<^verbatim>\<open>tempPath\<close> of the current atomic write;
  \<^item> \<open>faults\<close>: what the platform does to the coming file-system calls, one entry per
    call: \<open>Some c\<close> makes the call fail with code \<open>c\<close>, \<open>None\<close> (and an exhausted
    list) lets it run; \<open>trace\<close>: the calls made so far with their outcomes;
  \<^item> \<open>now\<close>: \<^verbatim>\<open>Date.now()\<close>; \<open>salt_source\<close>, \<open>salts_drawn\<close>: the values
    \<^verbatim>\<open>generateSalt()\<close> returns (its module is not part of the sources, so it is a
    parameter); \<open>log\<close>: the calls of the logger;
  \<^item> the fields of the \<^verbatim>\<open>TokenStore\<close> instance: \<open>cache\<close> (\<open>None\<close>: null),
    \<open>cacheTime\<close>, \<open>cacheTTL\<close> (the constant \<^verbatim>\<open>FILE_CACHE_TTL\<close>, a parameter),
    \<open>salt\<close> (\<open>JNull\<close>: null), \<open>lastReadOk\<close> and \<open>writeQueue\<close>, the settled state
    of the promise \<^verbatim>\<open>this._writeQueue\<close> (\<open>Inr ()\<close>: fulfilled, \<open>Inl e\<close>: rejected).
\<close>

record world =
  store_file :: "contents option"
  temp_file :: "contents option"
  faults :: "errcode option list"
  trace :: "(fs_op \<times> errcode option) list"
  now :: int
  salt_source :: "nat \<Rightarrow> string"
  salts_drawn :: nat
  log :: "(level \<times> log_msg) list"
  cache :: "json list option"
  cacheTime :: int
  cacheTTL :: int
  salt :: json
  lastReadOk :: bool
  writeQueue :: "error + unit"

type_synonym 'a io = "world \<Rightarrow> (error + 'a) \<times> world"

definition io_return :: "'a \<Rightarrow> 'a io" where
  "io_return x w = (Inr x, w)"

definition io_throw :: "error \<Rightarrow> 'a io" where
  "io_throw e w = (Inl e, w)"

definition io_bind :: "'a io \<Rightarrow> ('a \<Rightarrow> 'b io) \<Rightarrow> 'b io" where
  "io_bind m k w = (case m w of (Inl e, w') \<Rightarrow> (Inl e, w') | (Inr x, w') \<Rightarrow> k x w')"

text \<open>\<^verbatim>\<open>try { m } catch (e) { h(e) }\<close>\<close>

definition io_catch :: "'a io \<Rightarrow> (error \<Rightarrow> 'a io) \<Rightarrow> 'a io" where
  "io_catch m h w = (case m w of (Inl e, w') \<Rightarrow> h e w' | (Inr x, w') \<Rightarrow> (Inr x, w'))"

text \<open>\<^verbatim>\<open>try { m } catch (e) { }\<close>\<close>

definition io_ignore :: "unit io \<Rightarrow> unit io" where
  "io_ignore m = io_catch m (\<lambda>e. io_return ())"

definition log_call :: "level \<Rightarrow> log_msg \<Rightarrow> unit io" where
  "log_call l m w = (Inr (), w\<lparr>log := log w @ [(l, m)]\<rparr>)"

definition generateSalt :: "string io" where
  "generateSalt w = (Inr (salt_source w (salts_drawn w)), w\<lparr>salts_drawn := Suc (salts_drawn w)\<rparr>)"

fun file_at :: "path \<Rightarrow> world \<Rightarrow> contents option" where
  "file_at StoreFile w = store_file w"
| "file_at TempFile w = temp_file w"

fun set_file :: "path \<Rightarrow> contents option \<Rightarrow> world \<Rightarrow> world" where
  "set_file StoreFile c w = w\<lparr>store_file := c\<rparr>"
| "set_file TempFile c w = w\<lparr>temp_file := c\<rparr>"

text \<open>What a call does when the platform lets it run.\<close>

fun fs_run :: "fs_op \<Rightarrow> world \<Rightarrow> fs_result \<times> world" where
  "fs_run Mkdir w = (Done, w)"
| "fs_run (Access p) w = (case file_at p w of None \<Rightarrow> (Failed ENOENT, w) | Some c \<Rightarrow> (Done, w))"
| "fs_run (WriteFile p c) w = (Done, set_file p (Some c) w)"
| "fs_run (ReadFile p) w = (case file_at p w of None \<Rightarrow> (Failed ENOENT, w) | Some c \<Rightarrow> (Data c, w))"
| "fs_run (Open p) w = (Done, set_file p (Some EmptyText) w)"
| "fs_run (HandleWrite c) w = (Done, set_file TempFile (Some c) w)"
| "fs_run HandleSync w = (Done, w)"
| "fs_run HandleClose w = (Done, w)"
| "fs_run (Rename p q) w =
     (case file_at p w of None \<Rightarrow> (Failed ENOENT, w)
      | Some c \<Rightarrow> (Done, set_file p None (set_file q (Some c) w)))"
| "fs_run (Unlink p) w = (case file_at p w of None \<Rightarrow> (Failed ENOENT, w) | Some c \<Rightarrow> (Done, set_file p None w))"

fun outcome :: "fs_result \<Rightarrow> errcode option" where
  "outcome (Failed c) = Some c"
| "outcome r = None"

text \<open>A file-system call: the platform's fault for this call if there is one, else the call's own run; the call is recorded.\<close>

definition fs_call :: "fs_op \<Rightarrow> world \<Rightarrow> fs_result \<times> world" where
  "fs_call op w =
     (let (r, w') =
        (case faults w of
           [] \<Rightarrow> fs_run op w
         | None # rest \<Rightarrow> fs_run op (w\<lparr>faults := rest\<rparr>)
         | Some c # rest \<Rightarrow> (Failed c, w\<lparr>faults := rest\<rparr>))
      in (r, w'\<lparr>trace := trace w' @ [(op, outcome r)]\<rparr>))"

text \<open>The awaited calls that return nothing, and \<^verbatim>\<open>fs.readFile\<close>.\<close>

definition fs_unit :: "fs_op \<Rightarrow> unit io" where
  "fs_unit op w = (case fs_call op w of (Failed c, w') \<Rightarrow> (Inl (FsError c), w') | (r, w') \<Rightarrow> (Inr (), w'))"

definition fs_readFile :: "path \<Rightarrow> contents io" where
  "fs_readFile p w =
     (case fs_call (ReadFile p) w of
        (Failed c, w') \<Rightarrow> (Inl (FsError c), w')
      | (Data c, w') \<Rightarrow> (Inr c, w')
      | (Done, w') \<Rightarrow> (Inr EmptyText, w'))"

section \<open>TokenStore\<close>

subsection \<open>\<^verbatim>\<open>_ensureFileExists\<close>\<close>

definition store_document :: "json \<Rightarrow> json list \<Rightarrow> json" where
  "store_document s ts = JObj [(''salt'', s), (''tokens'', JArr ts)]"

definition ensureFileExists :: "unit io" where
  "ensureFileExists =
     io_bind (io_ignore (fs_unit Mkdir)) (\<lambda>_.
     io_catch (fs_unit (Access StoreFile)) (\<lambda>e.
       io_bind generateSalt (\<lambda>s.
       io_bind (fs_unit (WriteFile StoreFile (JSON_stringify (store_document (JStr s) [])))) (\<lambda>_.
       log_call INFO Created_file))))"

subsection \<open>\<^verbatim>\<open>_atomicWrite\<close>\<close>

text \<open>The \<^verbatim>\<open>try\<close> block after \<^verbatim>\<open>fs.open\<close> has returned the handle.\<close>

definition write_and_rename :: "contents \<Rightarrow> unit io" where
  "write_and_rename content =
     io_bind (fs_unit (HandleWrite content)) (\<lambda>_.
     io_bind (fs_unit HandleSync) (\<lambda>_.
     io_bind (fs_unit HandleClose) (\<lambda>_.
     io_catch (fs_unit (Rename TempFile StoreFile)) (\<lambda>renameError.
       if renameError = FsError EEXIST \<or> renameError = FsError EPERM then
         io_bind
           (io_catch (fs_unit (Unlink StoreFile)) (\<lambda>unlinkError.
              if unlinkError \<noteq> FsError ENOENT then io_throw unlinkError else io_return ()))
           (\<lambda>_. fs_unit (Rename TempFile StoreFile))
       else io_throw renameError))))"

text \<open>
  \<^verbatim>\<open>tempPath\<close> is a new name (process id, time, random UUID), so no file is there when the
  write starts. The \<^verbatim>\<open>catch\<close> block closes the handle when \<^verbatim>\<open>fs.open\<close> had
  returned one, unlinks the temporary file, ignoring the errors of both, and rethrows.
\<close>

definition atomicWrite :: "contents \<Rightarrow> unit io" where
  "atomicWrite content w =
     io_catch
       (io_bind (fs_unit (Open TempFile)) (\<lambda>handle.
          io_catch (write_and_rename content) (\<lambda>error.
            io_bind (io_ignore (fs_unit HandleClose)) (\<lambda>_. io_throw error))))
       (\<lambda>error. io_bind (io_ignore (fs_unit (Unlink TempFile))) (\<lambda>_. io_throw error))
       (w\<lparr>temp_file := None\<rparr>)"

subsection \<open>\<^verbatim>\<open>getSalt\<close>\<close>

definition set_salt :: "json \<Rightarrow> json io" where
  "set_salt s w = (Inr s, w\<lparr>salt := s\<rparr>)"

definition JSON_parse_io :: "contents \<Rightarrow> json io" where
  "JSON_parse_io t w = (case JSON_parse t of Inl e \<Rightarrow> (Inl e, w) | Inr j \<Rightarrow> (Inr j, w))"

definition get_prop_io :: "json \<Rightarrow> string \<Rightarrow> (json option) io" where
  "get_prop_io v k w = (case get_prop v k of Inl e \<Rightarrow> (Inl e, w) | Inr x \<Rightarrow> (Inr x, w))"

text \<open>
  The branch \<^verbatim>\<open>if (!parsed.salt)\<close>: \<^verbatim>\<open>parsed.salt = generateSalt()\<close> calls the
  generator and then assigns; the module is strict code, where assigning a property of a
  primitive throws a TypeError. The result is the value of \<^verbatim>\<open>parsed.salt\<close> afterwards.
\<close>

definition add_salt :: "json \<Rightarrow> json io" where
  "add_salt parsed =
     io_bind generateSalt (\<lambda>s.
       case parsed of
         JObj fs \<Rightarrow>
           (let with_salt = set_prop fs ''salt'' (JStr s);
                tokens = (case map_of with_salt ''tokens'' of
                            Some t \<Rightarrow> if truthy t then t else JArr []
                          | None \<Rightarrow> JArr []);
                with_tokens = set_prop with_salt ''tokens'' tokens
            in io_bind (fs_unit (WriteFile StoreFile (JSON_stringify (JObj with_tokens)))) (\<lambda>_.
               io_bind (log_call INFO Salt_added) (\<lambda>_.
               io_return (JStr s))))
       | _ \<Rightarrow> io_throw TypeError)"

definition getSalt :: "json io" where
  "getSalt w =
     (if truthy (salt w) then (Inr (salt w), w)
      else
        io_bind ensureFileExists (\<lambda>_.
        io_catch
          (io_bind (fs_readFile StoreFile) (\<lambda>data.
           io_bind (JSON_parse_io (or_empty_object data)) (\<lambda>parsed.
             case parsed of
               JArr ts \<Rightarrow>
                 io_bind generateSalt (\<lambda>s.
                 io_bind (fs_unit (WriteFile StoreFile (JSON_stringify (store_document (JStr s) ts)))) (\<lambda>_.
                 io_bind (log_call INFO Migrated_file) (\<lambda>_.
                 set_salt (JStr s))))
             | _ \<Rightarrow>
                 io_bind (get_prop_io parsed ''salt'') (\<lambda>sv.
                   case sv of
                     Some v \<Rightarrow> if truthy v then set_salt v else io_bind (add_salt parsed) set_salt
                   | None \<Rightarrow> io_bind (add_salt parsed) set_salt))))
          (\<lambda>error.
             io_bind (log_call ERROR (Salt_read_failed error)) (\<lambda>_.
             io_bind generateSalt (\<lambda>s. set_salt (JStr s))))) w)"

subsection \<open>\<^verbatim>\<open>readAll\<close>\<close>

definition isCacheValid :: "world \<Rightarrow> bool" where
  "isCacheValid w = (case cache w of None \<Rightarrow> False | Some c \<Rightarrow> now w - cacheTime w < cacheTTL w)"

text \<open>A read that found the token array: the assignments in the \<^verbatim>\<open>try\<close> block and the two statements after it.\<close>

definition read_ok :: "json list \<Rightarrow> (json list) io" where
  "read_ok ts w = (Inr ts, w\<lparr>cache := Some ts, lastReadOk := True, cacheTime := now w\<rparr>)"

text \<open>
  The statements shared by the format-error branch and the \<^verbatim>\<open>catch\<close> block, after
  their log call: an existing cache (an empty array is truthy too) is returned with a
  new timestamp, no cache gives a new empty array.
\<close>

definition read_failed :: "(json list) io" where
  "read_failed w =
     (case cache w of
        Some c \<Rightarrow> (Inr c, w\<lparr>lastReadOk := False, cacheTime := now w\<rparr>)
      | None \<Rightarrow> (Inr [], w\<lparr>lastReadOk := False\<rparr>))"

definition readAll :: "(json list) io" where
  "readAll w =
     (if isCacheValid w then (case cache w of Some c \<Rightarrow> (Inr c, w) | None \<Rightarrow> (Inr [], w))
      else
        io_bind ensureFileExists (\<lambda>_.
        io_catch
          (io_bind (fs_readFile StoreFile) (\<lambda>data.
           io_bind (JSON_parse_io (or_empty_object data)) (\<lambda>parsed.
             case parsed of
               JArr ts \<Rightarrow> read_ok ts
             | _ \<Rightarrow>
                 io_bind (get_prop_io parsed ''tokens'') (\<lambda>tv.
                   case tv of
                     Some (JArr ts) \<Rightarrow> read_ok ts
                   | _ \<Rightarrow> io_bind (log_call WARN Format_abnormal) (\<lambda>_. read_failed)))))
          (\<lambda>error. io_bind (log_call ERROR (Read_failed error)) (\<lambda>_. read_failed))) w)"

subsection \<open>The write queue\<close>

text \<open>
  \<^verbatim>\<open>q.then(f)\<close> runs \<open>f\<close> when \<open>q\<close> is fulfilled and passes a rejection of \<open>q\<close> on
  without running \<open>f\<close>. An operation is run when the operations queued before it have
  settled, so that \<open>writeQueue\<close> holds their settled state.
\<close>

definition promise_then :: "error + unit \<Rightarrow> 'a io \<Rightarrow> 'a io" where
  "promise_then q f w = (case q of Inl e \<Rightarrow> (Inl e, w) | Inr u \<Rightarrow> f w)"

definition settle_queue :: "unit io \<Rightarrow> unit io" where
  "settle_queue m w = (case m w of (r, w') \<Rightarrow> (r, w'\<lparr>writeQueue := r\<rparr>))"

subsection \<open>\<^verbatim>\<open>writeAll\<close>\<close>

definition update_cache :: "json list \<Rightarrow> unit io" where
  "update_cache ts w = (Inr (), w\<lparr>cache := Some ts, cacheTime := now w, lastReadOk := True\<rparr>)"

definition writeOperation :: "json list \<Rightarrow> unit io" where
  "writeOperation normalized =
     io_bind ensureFileExists (\<lambda>_.
     io_bind getSalt (\<lambda>salt.
     io_catch
       (io_bind (atomicWrite (JSON_stringify (store_document salt normalized))) (\<lambda>_.
        update_cache normalized))
       (\<lambda>error. io_bind (log_call ERROR (Save_failed error)) (\<lambda>_. io_throw error))))"

fun normalize_tokens :: "json \<Rightarrow> json list" where
  "normalize_tokens (JArr ts) = ts"
| "normalize_tokens v = []"

text \<open>The value is what the promise returned to the caller settles to.\<close>

definition writeAll :: "json \<Rightarrow> unit io" where
  "writeAll tokens w =
     settle_queue
       (io_catch (promise_then (writeQueue w) (writeOperation (normalize_tokens tokens)))
          (\<lambda>error. log_call ERROR (Write_queue_failed error))) w"

subsection \<open>\<^verbatim>\<open>mergeActiveTokens\<close>\<close>

text \<open>\<^verbatim>\<open>allTokens.findIndex(t => t.refresh_token === targetToken.refresh_token)\<close>, \<open>None\<close> for \<open>-1\<close>.\<close>

fun findIndex_key :: "json option \<Rightarrow> json list \<Rightarrow> error + nat option" where
  "findIndex_key k [] = Inr None"
| "findIndex_key k (t # ts) =
     (case get_prop t ''refresh_token'' of
        Inl e \<Rightarrow> Inl e
      | Inr v \<Rightarrow>
          if strict_eq v k then Inr (Some 0)
          else (case findIndex_key k ts of
                  Inl e \<Rightarrow> Inl e
                | Inr None \<Rightarrow> Inr None
                | Inr (Some i) \<Rightarrow> Inr (Some (Suc i))))"

definition applyUpdate :: "json \<Rightarrow> json list \<Rightarrow> error + json list" where
  "applyUpdate targetToken allTokens =
     (if \<not> truthy targetToken then Inr allTokens
      else
        (case get_prop targetToken ''refresh_token'' of
           Inl e \<Rightarrow> Inl e
         | Inr k \<Rightarrow>
             (case findIndex_key k allTokens of
                Inl e \<Rightarrow> Inl e
              | Inr None \<Rightarrow> Inr allTokens
              | Inr (Some index) \<Rightarrow>
                  (let plain = rest_without ''sessionId'' (own_props targetToken)
                   in Inr (allTokens[index := JObj (object_spread [own_props (allTokens ! index), plain])])))))"

text \<open>\<^verbatim>\<open>for (const memToken of activeTokens) applyUpdate(memToken)\<close>\<close>

fun applyUpdates :: "json list \<Rightarrow> json list \<Rightarrow> error + json list" where
  "applyUpdates [] allTokens = Inr allTokens"
| "applyUpdates (memToken # rest) allTokens =
     (case applyUpdate memToken allTokens of
        Inl e \<Rightarrow> Inl e
      | Inr allTokens' \<Rightarrow> applyUpdates rest allTokens')"

text \<open>
  \<^verbatim>\<open>({ sessionId, ...plain }) => ({ ...plain })\<close>: destructuring \<^verbatim>\<open>null\<close> throws a TypeError.
\<close>

fun strip_session :: "json \<Rightarrow> error + json" where
  "strip_session JNull = Inl TypeError"
| "strip_session t = Inr (JObj (object_spread [rest_without ''sessionId'' (own_props t)]))"

fun map_strip_session :: "json list \<Rightarrow> error + json list" where
  "map_strip_session [] = Inr []"
| "map_strip_session (t # ts) =
     (case strip_session t of
        Inl e \<Rightarrow> Inl e
      | Inr t' \<Rightarrow> (case map_strip_session ts of Inl e \<Rightarrow> Inl e | Inr ts' \<Rightarrow> Inr (t' # ts')))"

definition lift_result :: "error + 'a \<Rightarrow> 'a io" where
  "lift_result r w = (case r of Inl e \<Rightarrow> (Inl e, w) | Inr x \<Rightarrow> (Inr x, w))"

text \<open>The part of \<^verbatim>\<open>mergeOperation\<close> after the read; \<open>None\<close> is the \<^verbatim>\<open>null\<close> it returns to skip the write.\<close>

definition merge_tokens :: "json \<Rightarrow> json \<Rightarrow> json list \<Rightarrow> (json list option) io" where
  "merge_tokens activeTokens tokenToUpdate allTokens w =
     (let hasActiveTokens = (case activeTokens of JArr ms \<Rightarrow> ms \<noteq> [] | _ \<Rightarrow> False) in
      if \<not> lastReadOk w \<and> allTokens = [] then
        io_bind (log_call WARN Merge_skipped) (\<lambda>_. io_return None) w
      else if allTokens = [] \<and> hasActiveTokens then
        lift_result (map_sum id Some (map_strip_session (normalize_tokens activeTokens))) w
      else if truthy tokenToUpdate then
        lift_result (map_sum id Some (applyUpdate tokenToUpdate allTokens)) w
      else if hasActiveTokens then
        lift_result (map_sum id Some (applyUpdates (normalize_tokens activeTokens) allTokens)) w
      else io_return (Some allTokens) w)"

definition mergeOperation :: "json \<Rightarrow> json \<Rightarrow> (json list option) io" where
  "mergeOperation activeTokens tokenToUpdate =
     io_bind readAll (\<lambda>allTokens. merge_tokens activeTokens tokenToUpdate allTokens)"

text \<open>The function queued by \<^verbatim>\<open>mergeActiveTokens\<close>: merge, then write.\<close>

definition merge_and_write :: "json \<Rightarrow> json \<Rightarrow> unit io" where
  "merge_and_write activeTokens tokenToUpdate =
     io_bind (mergeOperation activeTokens tokenToUpdate) (\<lambda>merged.
       case merged of
         None \<Rightarrow> io_return ()
       | Some mergedTokens \<Rightarrow>
           io_bind ensureFileExists (\<lambda>_.
           io_bind getSalt (\<lambda>salt.
           io_catch
             (io_bind (atomicWrite (JSON_stringify (store_document salt mergedTokens))) (\<lambda>_.
              update_cache mergedTokens))
             (\<lambda>error. log_call ERROR (Save_failed error)))))"

definition mergeActiveTokens :: "json \<Rightarrow> json \<Rightarrow> unit io" where
  "mergeActiveTokens activeTokens tokenToUpdate w =
     settle_queue
       (io_catch (promise_then (writeQueue w) (merge_and_write activeTokens tokenToUpdate))
          (\<lambda>error. log_call ERROR (Merge_queue_failed error))) w"

section \<open>Notions used in the properties\<close>

text \<open>The fields of the store instance (its salt apart), the clock and the salt generator are the same in both states.\<close>

definition same_store :: "world \<Rightarrow> world \<Rightarrow> bool" where
  "same_store w w' \<longleftrightarrow>
     cache w' = cache w \<and> cacheTime w' = cacheTime w \<and> lastReadOk w' = lastReadOk w \<and>
     writeQueue w' = writeQueue w \<and> cacheTTL w' = cacheTTL w \<and> now w' = now w \<and>
     salt_source w' = salt_source w"

text \<open>The file-system calls made between two states, and the rename calls among them.\<close>

definition calls_since :: "world \<Rightarrow> world \<Rightarrow> (fs_op \<times> errcode option) list" where
  "calls_since w w' = drop (length (trace w)) (trace w')"


definition count_renames :: "(fs_op \<times> errcode option) list \<Rightarrow> nat" where
  "count_renames evs = length (filter (\<lambda>ev. fst ev = Rename TempFile StoreFile) evs)"

text \<open>
  The state the constructor leaves, with no store file yet; the generator's values and
  the freshness window are sample values.
\<close>

definition new_store :: world where
  "new_store =
     \<lparr>store_file = None, temp_file = None, faults = [], trace = [], now = 0,
      salt_source = (\<lambda>n. ''salt-'' @ decimal n), salts_drawn = 0, log = [],
      cache = None, cacheTime = 0, cacheTTL = 5000, salt = JNull, lastReadOk = True,
      writeQueue = Inr ()\<rparr>"



text \<open>
  What an operation leaves alone: \<open>no_new_faults\<close> says that a platform without pending
  faults stays so, \<open>kept\<close> adds the store fields of \<open>same_store\<close>.
\<close>

definition no_new_faults :: "world \<Rightarrow> world \<Rightarrow> bool" where
  "no_new_faults w w' \<longleftrightarrow> (faults w = [] \<longrightarrow> faults w' = [])"

definition kept :: "world \<Rightarrow> world \<Rightarrow> bool" where
  "kept w w' \<longleftrightarrow> same_store w w' \<and> no_new_faults w w'"

text \<open>
  Submitting operations one after another. \<open>submit_all\<close> goes through the promise chain
  and collects what each caller's promise settles to; \<open>run_in_order\<close> runs the queued
  functions themselves, one after the other, logging a failure as the \<^verbatim>\<open>.catch\<close> of
  the chain does.
\<close>

datatype operation = WriteAll json | MergeActiveTokens json json

fun submit :: "operation \<Rightarrow> unit io" where
  "submit (WriteAll tokens) = writeAll tokens"
| "submit (MergeActiveTokens activeTokens tokenToUpdate) = mergeActiveTokens activeTokens tokenToUpdate"

fun submit_all :: "operation list \<Rightarrow> world \<Rightarrow> (error + unit) list \<times> world" where
  "submit_all [] w = ([], w)"
| "submit_all (op # ops) w =
     (case submit op w of (r, w1) \<Rightarrow> (case submit_all ops w1 of (rs, w2) \<Rightarrow> (r # rs, w2)))"

fun queued_function :: "operation \<Rightarrow> unit io" where
  "queued_function (WriteAll tokens) = writeOperation (normalize_tokens tokens)"
| "queued_function (MergeActiveTokens activeTokens tokenToUpdate) = merge_and_write activeTokens tokenToUpdate"

fun queue_failure :: "operation \<Rightarrow> error \<Rightarrow> log_msg" where
  "queue_failure (WriteAll tokens) e = Write_queue_failed e"
| "queue_failure (MergeActiveTokens activeTokens tokenToUpdate) e = Merge_queue_failed e"

definition run_logged :: "operation \<Rightarrow> world \<Rightarrow> world" where
  "run_logged op w =
     (case queued_function op w of
        (Inl e, w1) \<Rightarrow> w1\<lparr>log := log w1 @ [(ERROR, queue_failure op e)]\<rparr>
      | (Inr u, w1) \<Rightarrow> w1)"

fun run_in_order :: "operation list \<Rightarrow> world \<Rightarrow> world" where
  "run_in_order [] w = w"
| "run_in_order (op # ops) w = run_in_order ops (run_logged op w)"

text \<open>
  The token sequence that \<^verbatim>\<open>readAll\<close> accepts in a parsed document (a bare array, or
  an object whose \<^verbatim>\<open>tokens\<close> is an array), in a file's contents, and in the store file.
\<close>

fun recognised_tokens :: "json \<Rightarrow> json list option" where
  "recognised_tokens (JArr ts) = Some ts"
| "recognised_tokens (JObj fs) = (case map_of fs ''tokens'' of Some (JArr ts) \<Rightarrow> Some ts | _ \<Rightarrow> None)"
| "recognised_tokens v = None"

definition stored_tokens :: "contents \<Rightarrow> json list option" where
  "stored_tokens t = (case JSON_parse (or_empty_object t) of Inl e \<Rightarrow> None | Inr j \<Rightarrow> recognised_tokens j)"

definition persisted_tokens :: "world \<Rightarrow> json list option" where
  "persisted_tokens w = (case store_file w of None \<Rightarrow> None | Some t \<Rightarrow> stored_tokens t)"

text \<open>
  Records. \<open>has_session\<close>: the value carries the session field. \<open>token_key\<close>: the key
  of a record, its \<^verbatim>\<open>refresh_token\<close> string. \<open>distinct_names\<close>: the property names
  of an object are distinct, as they are in every JavaScript object. \<open>is_record\<close>: an
  object with a key. \<open>overlay d m\<close> is \<^verbatim>\<open>{ ...d, ...plain }\<close> for the \<open>plain\<close> of
  \<open>m\<close>, the object that \<open>applyUpdate\<close> stores. \<open>applied_records\<close>: the records a merge
  applies, \<^verbatim>\<open>tokenToUpdate\<close> alone when it is given, else the active tokens.
\<close>

definition has_session :: "json \<Rightarrow> bool" where
  "has_session t \<longleftrightarrow> ''sessionId'' \<in> fst ` set (own_props t)"

fun token_key :: "json \<Rightarrow> string option" where
  "token_key (JObj fs) = (case map_of fs ''refresh_token'' of Some (JStr s) \<Rightarrow> Some s | _ \<Rightarrow> None)"
| "token_key v = None"

fun distinct_names :: "json \<Rightarrow> bool" where
  "distinct_names (JObj fs) = distinct (map fst fs)"
| "distinct_names v = True"

definition is_record :: "json \<Rightarrow> bool" where
  "is_record t \<longleftrightarrow> distinct_names t \<and> token_key t \<noteq> None"

definition overlay :: "json \<Rightarrow> json \<Rightarrow> json" where
  "overlay d m = JObj (object_spread [own_props d, rest_without ''sessionId'' (own_props m)])"

definition applied_records :: "json \<Rightarrow> json \<Rightarrow> json list" where
  "applied_records activeTokens tokenToUpdate =
     (if truthy tokenToUpdate then [tokenToUpdate] else normalize_tokens activeTokens)"

text \<open>Sample records and stores for the concrete runs.\<close>

definition token_a :: json where
  "token_a = JObj [(''refresh_token'', JStr ''a''), (''access_token'', JStr ''old'')]"

definition token_b :: json where
  "token_b = JObj [(''refresh_token'', JStr ''b''), (''enable'', JBool False)]"

definition token_a_active :: json where
  "token_a_active =
     JObj [(''refresh_token'', JStr ''a''), (''access_token'', JStr ''new''), (''sessionId'', JStr ''s1'')]"

definition token_b_active :: json where
  "token_b_active =
     JObj [(''refresh_token'', JStr ''b''), (''enable'', JBool True), (''sessionId'', JStr ''s2'')]"

definition token_c_active :: json where
  "token_c_active =
     JObj [(''refresh_token'', JStr ''c''), (''access_token'', JStr ''new''), (''sessionId'', JStr ''s3'')]"

text \<open>A new store on a disk where the seventh file-system call, the opening of the temporary file, fails.\<close>

definition failing_disk_store :: world where
  "failing_disk_store = new_store\<lparr>faults := [None, None, None, None, None, None, Some EIO]\<rparr>"

text \<open>A new store on a disk where the store file can neither be accessed nor written.\<close>

definition unwritable_disk_store :: world where
  "unwritable_disk_store = new_store\<lparr>faults := [None, Some EACCES, Some EACCES]\<rparr>"

text \<open>A store holding \<open>token_a\<close> and \<open>token_b\<close>, its cache still fresh.\<close>

definition two_token_store :: world where
  "two_token_store = snd (writeAll (JArr [token_a, token_b]) new_store)"

text \<open>A store holding \<open>token_a\<close> on a disk where the next opening of a temporary file fails.\<close>

definition write_fails_store :: world where
  "write_fails_store = (snd (writeAll (JArr [token_a]) new_store))\<lparr>faults := [None, None, Some EIO]\<rparr>"

text \<open>A new store whose file holds invalid JSON.\<close>

definition unreadable_store :: world where
  "unreadable_store = new_store\<lparr>store_file := Some BadText\<rparr>"

text \<open>
  A new store instance (nothing cached) over a file that holds \<open>token_a\<close> and \<open>token_b\<close>,
  on a disk where the read of the file fails: in \<open>read_error_store\<close> after a successful
  \<^verbatim>\<open>fs.access\<close>, in \<open>flaky_store\<close> after an \<^verbatim>\<open>fs.access\<close> that has failed with EACCES
  and an \<^verbatim>\<open>fs.writeFile\<close> that has run. In \<open>missing_file_store\<close> there is no file,
  and the read of the file that the bootstrap has created fails.
\<close>

definition read_error_store :: world where
  "read_error_store =
     new_store\<lparr>store_file := Some (JSON_stringify (store_document (JStr ''salt-9'') [token_a, token_b])),
                faults := [None, None, Some EIO]\<rparr>"

definition flaky_store :: world where
  "flaky_store =
     new_store\<lparr>store_file := Some (JSON_stringify (store_document (JStr ''salt-9'') [token_a, token_b])),
                faults := [None, Some EACCES, None, Some EIO]\<rparr>"

definition missing_file_store :: world where
  "missing_file_store = new_store\<lparr>faults := [None, None, None, Some EIO]\<rparr>"

text \<open>
  A store after a successful write of \<open>[token_a]\<close>, resp. of the empty sequence, whose
  file has then been replaced by invalid JSON, at a time when the cache has expired.
\<close>

definition corrupted_store :: world where
  "corrupted_store = (snd (writeAll (JArr [token_a]) new_store))\<lparr>store_file := Some BadText, now := 5000\<rparr>"

definition emptied_then_corrupted :: world where
  "emptied_then_corrupted = (snd (writeAll (JArr []) new_store))\<lparr>store_file := Some BadText, now := 5000\<rparr>"

section \<open>Stepping through the operations\<close>

text \<open>The definitions that a run on a concrete state unfolds.\<close>

lemmas run_defs =
  atomicWrite_def write_and_rename_def io_return_def io_throw_def io_bind_def io_catch_def
  io_ignore_def fs_unit_def fs_call_def fs_readFile_def calls_since_def count_renames_def
  new_store_def JSON_stringify_def

lemmas eval_defs =
  run_defs ensureFileExists_def getSalt_def add_salt_def readAll_def read_ok_def read_failed_def
  isCacheValid_def writeOperation_def writeAll_def update_cache_def promise_then_def settle_queue_def
  merge_tokens_def mergeOperation_def merge_and_write_def mergeActiveTokens_def applyUpdate_def
  log_call_def generateSalt_def set_salt_def JSON_parse_io_def get_prop_io_def lift_result_def
  store_document_def Let_def object_spread_def rest_without_def run_logged_def

lemmas world_defs =
  token_a_def token_b_def token_a_active_def token_b_active_def failing_disk_store_def
  unwritable_disk_store_def
  two_token_store_def write_fails_store_def unreadable_store_def corrupted_store_def
  emptied_then_corrupted_def decimal.simps token_c_active_def read_error_store_def flaky_store_def
  missing_file_store_def

lemmas prop_defs =
  persisted_tokens_def stored_tokens_def has_session_def is_record_def overlay_def applied_records_def

lemmas kept_defs = kept_def same_store_def no_new_faults_def

lemma io_bindE:
  assumes "io_bind m k w = (r, w')"
  obtains e where "m w = (Inl e, w')" "r = Inl e"
        | x w1 where "m w = (Inr x, w1)" "k x w1 = (r, w')"
  using assms by (auto simp: io_bind_def split: prod.splits sum.splits)

lemma io_catchE:
  assumes "io_catch m h w = (r, w')"
  obtains e w1 where "m w = (Inl e, w1)" "h e w1 = (r, w')"
        | x where "m w = (Inr x, w')" "r = Inr x"
  using assms by (auto simp: io_catch_def split: prod.splits sum.splits)

lemma io_ignoreE:
  assumes "io_ignore m w = (r, w')"
  obtains r0 where "m w = (r0, w')" "r = Inr ()"
  using assms by (auto simp: io_ignore_def io_catch_def io_return_def split: prod.splits sum.splits)

lemma set_file_frame:
  "trace (set_file p c w) = trace w" "faults (set_file p c w) = faults w"
  "log (set_file p c w) = log w" "cache (set_file p c w) = cache w"
  "cacheTime (set_file p c w) = cacheTime w" "lastReadOk (set_file p c w) = lastReadOk w"
  "salt (set_file p c w) = salt w" "now (set_file p c w) = now w"
  "cacheTTL (set_file p c w) = cacheTTL w" "writeQueue (set_file p c w) = writeQueue w"
  "salt_source (set_file p c w) = salt_source w" "salts_drawn (set_file p c w) = salts_drawn w"
  by (cases p; simp)+

lemma fs_run_frame:
  assumes "fs_run op w = (r, w')"
  shows "trace w' = trace w" "faults w' = faults w"
  "log w' = log w" "cache w' = cache w"
  "cacheTime w' = cacheTime w" "lastReadOk w' = lastReadOk w"
  "salt w' = salt w" "now w' = now w"
  "cacheTTL w' = cacheTTL w" "writeQueue w' = writeQueue w"
  "salt_source w' = salt_source w" "salts_drawn w' = salts_drawn w"
  using assms by (cases op; auto simp: set_file_frame split: option.splits)+

subsection \<open>The calls of an atomic write\<close>

lemma fs_call_trace:
  "fs_call op w = (r, w') \<Longrightarrow> trace w' = trace w @ [(op, outcome r)]"
  by (auto simp: fs_call_def Let_def dest: fs_run_frame(1) split: list.splits option.splits prod.splits)

lemma fs_unit_traceE:
  assumes "fs_unit op w = (r, w')"
  obtains c where "r = Inl (FsError c)" "trace w' = trace w @ [(op, Some c)]"
        | "r = Inr ()" "trace w' = trace w @ [(op, None)]"
  using assms fs_call_trace[of op w _ w']
  by (auto simp: fs_unit_def split: prod.splits fs_result.splits)




subsection \<open>What the operations leave alone\<close>

lemma fs_run_kept: "fs_run op w = (r, w') \<Longrightarrow> kept w w'"
  using fs_run_frame[of op w r w'] by (simp add: kept_defs)

lemma fs_call_kept: "fs_call op w = (r, w') \<Longrightarrow> kept w w'"
  by (auto simp: fs_call_def Let_def split: list.splits option.splits prod.splits dest!: fs_run_kept)
     (auto simp: kept_defs)

lemma fs_unit_kept: "fs_unit op w = (r, w') \<Longrightarrow> kept w w'"
  by (auto simp: fs_unit_def dest: fs_call_kept split: prod.splits fs_result.splits)

lemma fs_readFile_kept: "fs_readFile p w = (r, w') \<Longrightarrow> kept w w'"
  by (auto simp: fs_readFile_def dest: fs_call_kept split: prod.splits fs_result.splits)

lemma generateSalt_kept: "generateSalt w = (r, w') \<Longrightarrow> kept w w'"
  by (auto simp: generateSalt_def kept_defs)

lemma log_call_kept: "log_call l m w = (r, w') \<Longrightarrow> kept w w'"
  by (auto simp: log_call_def kept_defs)

lemma set_salt_kept: "set_salt s w = (r, w') \<Longrightarrow> kept w w'"
  by (auto simp: set_salt_def kept_defs)

lemma pure_kept:
  "JSON_parse_io t w = (r, w') \<Longrightarrow> kept w w'"
  "get_prop_io v k w = (r', w') \<Longrightarrow> kept w w'"
  "lift_result x w = (r'', w') \<Longrightarrow> kept w w'"
  by (auto simp: JSON_parse_io_def get_prop_io_def lift_result_def kept_defs split: sum.splits)

lemmas prim_kept =
  fs_unit_kept fs_readFile_kept generateSalt_kept log_call_kept set_salt_kept pure_kept

lemma ensureFileExists_kept: "ensureFileExists w = (r, w') \<Longrightarrow> kept w w'"
  unfolding ensureFileExists_def
  by (auto elim!: io_bindE io_catchE io_ignoreE simp: io_return_def io_throw_def dest!: prim_kept)
     (auto simp: kept_defs)

lemma atomicWrite_kept: "atomicWrite c w = (r, w') \<Longrightarrow> kept w w'"
  unfolding atomicWrite_def write_and_rename_def
  apply (auto elim!: io_bindE io_catchE io_ignoreE simp: io_return_def io_throw_def
        dest!: prim_kept split: if_splits)
  apply (auto simp: kept_defs)
  done

lemma add_salt_kept: "add_salt parsed w = (r, w') \<Longrightarrow> kept w w'"
  unfolding add_salt_def
  by (auto elim!: io_bindE simp: io_return_def io_throw_def Let_def dest!: prim_kept split: json.splits)
     (auto simp: kept_defs)

lemma kept_refl: "kept w w"
  by (simp add: kept_defs)

lemma getSalt_kept: "getSalt w = (r, w') \<Longrightarrow> kept w w'"
  unfolding getSalt_def
  apply (auto elim!: io_bindE io_catchE simp: kept_refl
        dest!: prim_kept ensureFileExists_kept add_salt_kept split: if_splits json.splits option.splits)
  apply (auto simp: kept_defs)
  done

subsection \<open>The outcomes of a read\<close>

lemma read_tail_cases:
  assumes "(case parsed of
      JArr ts \<Rightarrow> read_ok ts
    | _ \<Rightarrow> io_bind (get_prop_io parsed ''tokens'') (\<lambda>tv.
             case tv of
               Some (JArr ts) \<Rightarrow> read_ok ts
             | _ \<Rightarrow> io_bind (log_call WARN Format_abnormal) (\<lambda>_. read_failed))) w = (r, w')"
  shows "(\<exists>ts. r = Inr ts \<and> w' = w\<lparr>cache := Some ts, lastReadOk := True, cacheTime := now w\<rparr>) \<or>
         (r, w') = read_failed (w\<lparr>log := log w @ [(WARN, Format_abnormal)]\<rparr>) \<or>
         (r = Inl TypeError \<and> w' = w)"
  using assms
  by (cases parsed)
     (auto simp: io_bind_def get_prop_io_def log_call_def read_ok_def
        split: option.splits json.splits sum.splits)

lemma read_failed_returns: "read_failed w \<noteq> (Inl e, w')"
  by (simp add: read_failed_def split: option.splits)

lemma read_failed_state:
  "read_failed w = (r, w') \<Longrightarrow>
     faults w' = faults w \<and> writeQueue w' = writeQueue w \<and> salt w' = salt w \<and> cache w' = cache w \<and>
     \<not> lastReadOk w' \<and> (\<exists>ts. r = Inr ts)"
  by (auto simp: read_failed_def split: option.splits)

lemma readAll_cases:
  assumes "readAll w = (r, w')"
  shows "(isCacheValid w \<and> w' = w \<and> (\<exists>c. cache w = Some c \<and> r = Inr c)) \<or>
         (\<not> isCacheValid w \<and> (\<exists>e. ensureFileExists w = (Inl e, w') \<and> r = Inl e)) \<or>
         (\<not> isCacheValid w \<and>
            (\<exists>w1 rd w2. ensureFileExists w = (Inr (), w1) \<and> fs_readFile StoreFile w1 = (rd, w2) \<and>
               ((\<exists>ts. r = Inr ts \<and> w' = w2\<lparr>cache := Some ts, lastReadOk := True, cacheTime := now w2\<rparr>) \<or>
                (\<exists>l. (r, w') = read_failed (w2\<lparr>log := log w2 @ [l]\<rparr>)))))"
proof (cases "isCacheValid w")
  case True
  then show ?thesis using assms by (auto simp: readAll_def isCacheValid_def split: option.splits)
next
  case False
  have "io_bind ensureFileExists (\<lambda>_.
        io_catch
          (io_bind (fs_readFile StoreFile) (\<lambda>data.
           io_bind (JSON_parse_io (or_empty_object data)) (\<lambda>parsed.
             case parsed of
               JArr ts \<Rightarrow> read_ok ts
             | _ \<Rightarrow>
                 io_bind (get_prop_io parsed ''tokens'') (\<lambda>tv.
                   case tv of
                     Some (JArr ts) \<Rightarrow> read_ok ts
                   | _ \<Rightarrow> io_bind (log_call WARN Format_abnormal) (\<lambda>_. read_failed)))))
          (\<lambda>error. io_bind (log_call ERROR (Read_failed error)) (\<lambda>_. read_failed))) w = (r, w')"
    using assms False unfolding readAll_def by (simp only: if_False)
  then show ?thesis
    apply (elim io_bindE io_catchE)
    using False
        apply (auto dest!: read_tail_cases simp: JSON_parse_io_def log_call_def split: sum.splits)
       apply (metis read_failed_returns)+
    done
qed

lemma fs_call_file:
  assumes "fs_call op w = (r, w')" and "op = Mkdir \<or> op = Access p \<or> op = ReadFile p"
  shows "store_file w' = store_file w"
  using assms
  by (auto simp: fs_call_def Let_def split: list.splits option.splits prod.splits)

lemma fs_unit_file:
  assumes "fs_unit op w = (r, w')" and "op = Mkdir \<or> op = Access p"
  shows "store_file w' = store_file w"
  using assms fs_call_file[of op w _ w' p]
  by (auto simp: fs_unit_def split: prod.splits fs_result.splits)

lemma fs_readFile_file:
  assumes "fs_readFile p w = (r, w')"
  shows "store_file w' = store_file w \<and> (\<exists>c. trace w' = trace w @ [(ReadFile p, c)])"
  using assms fs_call_file[of "ReadFile p" w _ w' p] fs_call_trace[of "ReadFile p" w _ w']
  by (auto simp: fs_readFile_def split: prod.splits fs_result.splits)

lemma fs_unit_probeE:
  assumes "fs_unit op w = (r, w')"
  obtains c where "r = Inl (FsError c)" "trace w' = trace w @ [(op, Some c)]"
                  "op = Mkdir \<or> op = Access StoreFile \<longrightarrow> store_file w' = store_file w"
        | "r = Inr ()" "trace w' = trace w @ [(op, None)]"
          "op = Mkdir \<or> op = Access StoreFile \<longrightarrow> store_file w' = store_file w"
proof -
  have "op = Mkdir \<or> op = Access StoreFile \<longrightarrow> store_file w' = store_file w"
    using fs_unit_file[OF assms, of StoreFile] by blast
  then show thesis
    using assms that by (elim fs_unit_traceE) blast+
qed

text \<open>The bootstrap leaves the store file alone unless its \<^verbatim>\<open>fs.access\<close> has failed.\<close>

lemma ensureFileExists_runs:
  assumes "ensureFileExists w = (r, w1)"
  shows "\<exists>m. (r = Inr () \<and> store_file w1 = store_file w \<and>
               trace w1 = trace w @ [(Mkdir, m), (Access StoreFile, None)]) \<or>
              (\<exists>e evs. trace w1 = trace w @ (Mkdir, m) # (Access StoreFile, Some e) # evs)"
  using assms unfolding ensureFileExists_def
  apply (elim io_bindE io_catchE io_ignoreE)
  apply (auto elim!: fs_unit_probeE io_bindE simp: generateSalt_def log_call_def io_return_def)
  done

lemma read_failed_file:
  "read_failed w = (r, w') \<Longrightarrow> trace w' = trace w \<and> store_file w' = store_file w"
  by (auto simp: read_failed_def split: option.splits)

lemma readAll_keeps_accessible_file:
  assumes "readAll w = (r, w')" and "\<forall>e. (Access StoreFile, Some e) \<notin> set (calls_since w w')"
  shows "store_file w' = store_file w"
  using readAll_cases[OF assms(1)] assms(2)
  apply (elim disjE conjE exE)
     apply simp
    apply (drule ensureFileExists_runs, auto simp: calls_since_def)[1]
   apply (drule ensureFileExists_runs, drule fs_readFile_file, auto simp: calls_since_def)[1]
  apply (drule ensureFileExists_runs, drule fs_readFile_file, drule sym, drule read_failed_file,
      auto simp: calls_since_def)[1]
  done

text \<open>
  Whatever the platform does: when the bootstrap returns and the read of the file delivers
  a text in which no token sequence is recognised, an existing cache is what \<^verbatim>\<open>readAll\<close>
  returns.
\<close>

lemma readAll_stale_after_bad_read:
  assumes "cache w = Some c" and "\<not> isCacheValid w"
      and "ensureFileExists w = (Inr (), w1)" and "fs_readFile StoreFile w1 = (Inr t, w2)"
      and "stored_tokens t = None"
  shows "\<exists>w'. readAll w = (Inr c, w') \<and> cache w' = Some c \<and> \<not> lastReadOk w' \<and> cacheTime w' = now w \<and>
           store_file w' = store_file w2 \<and> calls_since w2 w' = []"
proof -
  have k: "cache w2 = Some c" "now w2 = now w"
    using ensureFileExists_kept[OF assms(3)] fs_readFile_kept[OF assms(4)] assms(1)
    by (simp_all add: kept_defs)
  show ?thesis
    using assms(2,3,4,5) k
    by (cases t)
       (auto simp: readAll_def io_bind_def io_catch_def JSON_parse_io_def calls_since_def
          stored_tokens_def get_prop_io_def read_failed_def log_call_def split: json.splits option.splits)
qed

lemma readAll_kept_faults:
  assumes "readAll w = (r, w')"
  shows "no_new_faults w w' \<and> writeQueue w' = writeQueue w"
  using readAll_cases[OF assms]
  apply (elim disjE conjE exE)
     apply (simp add: no_new_faults_def)
    apply (drule ensureFileExists_kept, simp add: kept_defs)
   apply (drule ensureFileExists_kept, drule fs_readFile_kept, simp add: kept_defs)
  apply (drule ensureFileExists_kept, drule fs_readFile_kept, drule sym, drule read_failed_state,
      simp add: kept_defs)
  done

lemma readAll_queue: "readAll w = (r, w') \<Longrightarrow> writeQueue w' = writeQueue w"
  by (simp add: readAll_kept_faults)

lemma readAll_unhealthy_cache:
  assumes "readAll w = (r, w')" and "\<not> lastReadOk w'"
  shows "cache w' = cache w"
  using readAll_cases[OF assms(1)] assms(2)
  apply (elim disjE conjE exE)
     apply simp
    apply (drule ensureFileExists_kept, simp add: kept_defs)
   apply simp
  apply (drule ensureFileExists_kept, drule fs_readFile_kept, drule sym, drule read_failed_state,
      simp add: kept_defs)
  done

subsection \<open>The settled state of the queue\<close>

lemma merge_tokens_state:
  assumes "merge_tokens a u ts w = (r, w')"
  shows "faults w' = faults w \<and> writeQueue w' = writeQueue w \<and> salt w' = salt w"
  using assms unfolding merge_tokens_def Let_def
  by (auto simp: io_bind_def io_return_def log_call_def lift_result_def split: if_splits sum.splits)

lemma mergeOperation_queue: "mergeOperation a u w = (r, w') \<Longrightarrow> writeQueue w' = writeQueue w"
  unfolding mergeOperation_def
  by (auto elim!: io_bindE dest!: readAll_queue merge_tokens_state)

lemma writeOperation_queue: "writeOperation ts w = (r, w') \<Longrightarrow> writeQueue w' = writeQueue w"
  unfolding writeOperation_def
  by (auto elim!: io_bindE io_catchE simp: update_cache_def io_throw_def
        dest!: prim_kept ensureFileExists_kept getSalt_kept atomicWrite_kept)
     (auto simp: kept_defs)

lemma merge_and_write_queue: "merge_and_write a u w = (r, w') \<Longrightarrow> writeQueue w' = writeQueue w"
  unfolding merge_and_write_def
  by (auto elim!: io_bindE io_catchE simp: update_cache_def io_throw_def io_return_def
        dest!: prim_kept ensureFileExists_kept getSalt_kept atomicWrite_kept mergeOperation_queue
        split: option.splits)
     (auto simp: kept_defs)

lemma queued_function_queue: "queued_function op w = (r, w') \<Longrightarrow> writeQueue w' = writeQueue w"
  by (cases op) (auto dest: writeOperation_queue merge_and_write_queue)

lemma submit_fulfilled:
  assumes "writeQueue w = Inr ()"
  shows "submit op w = (Inr (), run_logged op w)"
proof (cases "queued_function op w")
  case (Pair r w1)
  then have q: "writeQueue w1 = Inr ()" using assms queued_function_queue by metis
  then have eq: "w1\<lparr>writeQueue := Inr ()\<rparr> = w1" by (cases w1) simp
  show ?thesis
    using Pair assms q eq
    by (cases op; cases r)
       (auto simp: writeAll_def mergeActiveTokens_def settle_queue_def io_catch_def promise_then_def
          run_logged_def log_call_def)
qed

lemma run_logged_queue: "writeQueue w = Inr () \<Longrightarrow> writeQueue (run_logged op w) = Inr ()"
  by (cases "queued_function op w")
     (auto simp: run_logged_def dest: queued_function_queue split: sum.splits)

subsection \<open>A platform that lets every call run\<close>

lemma fs_unit_quiet:
  "faults w = [] \<Longrightarrow> fs_unit op w =
     (case fs_run op w of
        (Failed c, w') \<Rightarrow> (Inl (FsError c), w'\<lparr>trace := trace w' @ [(op, Some c)]\<rparr>)
      | (r, w') \<Rightarrow> (Inr (), w'\<lparr>trace := trace w' @ [(op, None)]\<rparr>))"
  by (auto simp: fs_unit_def fs_call_def split: prod.splits fs_result.splits)

lemma fs_readFile_quiet:
  "faults w = [] \<Longrightarrow> fs_readFile p w =
     (case file_at p w of
        None \<Rightarrow> (Inl (FsError ENOENT), w\<lparr>trace := trace w @ [(ReadFile p, Some ENOENT)]\<rparr>)
      | Some c \<Rightarrow> (Inr c, w\<lparr>trace := trace w @ [(ReadFile p, None)]\<rparr>))"
  by (auto simp: fs_readFile_def fs_call_def split: prod.splits fs_result.splits option.splits)

lemma ensureFileExists_present:
  "faults w = [] \<Longrightarrow> store_file w = Some t \<Longrightarrow>
     ensureFileExists w = (Inr (), w\<lparr>trace := trace w @ [(Mkdir, None), (Access StoreFile, None)]\<rparr>)"
  by (simp add: ensureFileExists_def io_bind_def io_catch_def io_ignore_def io_return_def fs_unit_quiet)

lemma ensureFileExists_absent:
  "faults w = [] \<Longrightarrow> store_file w = None \<Longrightarrow>
     ensureFileExists w =
       (Inr (), w\<lparr>store_file := Some (JSON_stringify (store_document (JStr (salt_source w (salts_drawn w))) [])),
                  salts_drawn := Suc (salts_drawn w),
                  trace := trace w @ [(Mkdir, None), (Access StoreFile, Some ENOENT),
                     (WriteFile StoreFile
                        (JSON_stringify (store_document (JStr (salt_source w (salts_drawn w))) [])), None)],
                  log := log w @ [(INFO, Created_file)]\<rparr>)"
  by (simp add: ensureFileExists_def io_bind_def io_catch_def io_ignore_def io_return_def fs_unit_quiet
        generateSalt_def log_call_def)

lemma ensureFileExists_quiet:
  assumes "faults w = []"
  shows "\<exists>w'. ensureFileExists w = (Inr (), w') \<and> store_file w' \<noteq> None \<and>
           (store_file w \<noteq> None \<longrightarrow> store_file w' = store_file w)"
proof (cases "store_file w")
  case None
  then show ?thesis using assms by (simp add: ensureFileExists_absent)
next
  case (Some t)
  then show ?thesis using assms by (simp add: ensureFileExists_present)
qed

lemma atomicWrite_quiet:
  "faults w = [] \<Longrightarrow>
     atomicWrite c w =
       (Inr (), w\<lparr>store_file := Some c, temp_file := None,
                  trace := trace w @ [(Open TempFile, None), (HandleWrite c, None), (HandleSync, None),
                                      (HandleClose, None), (Rename TempFile StoreFile, None)]\<rparr>)"
  by (simp add: atomicWrite_def write_and_rename_def io_bind_def io_catch_def fs_unit_quiet)

lemma getSalt_quiet:
  assumes "faults w = []"
  shows "\<exists>s w'. getSalt w = (Inr s, w')"
proof (cases "truthy (salt w)")
  case True
  then show ?thesis by (simp add: getSalt_def)
next
  case False
  obtain w1 where e: "ensureFileExists w = (Inr (), w1)" using ensureFileExists_quiet[OF assms] by blast
  obtain r w' where g: "getSalt w = (r, w')" by (cases "getSalt w")
  have "\<exists>s. r = Inr s"
    using g False e unfolding getSalt_def
    by (auto simp: io_bind_def elim!: io_catchE io_bindE simp: set_salt_def log_call_def generateSalt_def)
  then show ?thesis using g by blast
qed

lemma persist_quiet:
  assumes "faults w = []"
  shows "\<exists>s w1 w2. ensureFileExists w = (Inr (), w1) \<and> getSalt w1 = (Inr s, w2) \<and> faults w2 = [] \<and> kept w w2"
proof -
  obtain w1 where e: "ensureFileExists w = (Inr (), w1)" using ensureFileExists_quiet[OF assms] by blast
  then have k1: "kept w w1" by (rule ensureFileExists_kept)
  then have f1: "faults w1 = []" using assms by (simp add: kept_defs)
  obtain s w2 where g: "getSalt w1 = (Inr s, w2)" using getSalt_quiet[OF f1] by blast
  then have k2: "kept w1 w2" by (rule getSalt_kept)
  have "faults w2 = []" "kept w w2" using k1 k2 f1 by (simp_all add: kept_defs)
  then show ?thesis using e g by blast
qed

lemma writeOperation_quiet:
  assumes "faults w = []"
  shows "\<exists>s w'. writeOperation ts w = (Inr (), w') \<and> faults w' = [] \<and>
           store_file w' = Some (JSON_stringify (store_document s ts)) \<and> cache w' = Some ts \<and>
           cacheTime w' = now w \<and> lastReadOk w' \<and> writeQueue w' = writeQueue w \<and>
           cacheTTL w' = cacheTTL w \<and> now w' = now w"
proof -
  obtain s w1 w2 where p: "ensureFileExists w = (Inr (), w1)" "getSalt w1 = (Inr s, w2)"
      "faults w2 = []" "kept w w2"
    using persist_quiet[OF assms] by blast
  show ?thesis
    using p
    by (intro exI[of _ s])
       (simp add: writeOperation_def io_bind_def io_catch_def atomicWrite_quiet update_cache_def kept_defs)
qed

lemma readAll_expired_ok:
  assumes "faults w = []" and "\<not> isCacheValid w" and "store_file w = Some t" and "stored_tokens t = Some ts"
  shows "readAll w =
           (Inr ts, w\<lparr>trace := trace w @ [(Mkdir, None), (Access StoreFile, None), (ReadFile StoreFile, None)],
                      cache := Some ts, lastReadOk := True, cacheTime := now w\<rparr>)"
  using assms
  by (cases t)
     (auto simp: readAll_def ensureFileExists_present io_bind_def io_catch_def fs_readFile_quiet
        JSON_parse_io_def stored_tokens_def get_prop_io_def read_ok_def split: json.splits option.splits)

lemma readAll_returns:
  assumes "faults w = []" and "readAll w = (r, w')"
  shows "\<exists>ts. r = Inr ts"
proof (cases "isCacheValid w")
  case True
  then show ?thesis using assms by (auto simp: readAll_def split: option.splits)
next
  case False
  obtain w1 where e: "ensureFileExists w = (Inr (), w1)" using ensureFileExists_quiet[OF assms(1)] by blast
  show ?thesis
    using readAll_cases[OF assms(2)] e by (auto dest: sym[THEN read_failed_state])
qed

lemma readAll_quiet:
  assumes "faults w = []" and "readAll w = (r, w')"
  shows "faults w' = [] \<and> (\<exists>ts. r = Inr ts) \<and> writeQueue w' = writeQueue w"
  using readAll_kept_faults[OF assms(2)] readAll_returns[OF assms] assms(1)
  by (simp add: no_new_faults_def)

lemma readAll_unhealthy_file:
  assumes "faults w = []" and "readAll w = (r, w')" and "\<not> lastReadOk w'"
  shows "store_file w' = store_file w"
proof (cases "isCacheValid w")
  case True
  then show ?thesis using assms(2) by (auto simp: readAll_def split: option.splits)
next
  case False
  show ?thesis
  proof (cases "store_file w")
    case None
    then have "lastReadOk w'"
      using assms(1,2) False
      by (auto simp: readAll_def ensureFileExists_absent io_bind_def io_catch_def fs_readFile_quiet
            JSON_parse_io_def JSON_stringify_def store_document_def get_prop_io_def read_ok_def)
    then show ?thesis using assms(3) by simp
  next
    case (Some t)
    from readAll_cases[OF assms(2)] show ?thesis
      using False Some assms(1)
      by (auto simp: ensureFileExists_present fs_readFile_quiet read_failed_def split: option.splits)
  qed
qed

subsection \<open>The salt of the store instance\<close>

lemma fs_call_salt: "fs_call op w = (r, w') \<Longrightarrow> salt w' = salt w"
  by (auto simp: fs_call_def Let_def split: list.splits option.splits prod.splits dest!: fs_run_frame(7))

lemma prim_salt:
  "fs_unit op w = (r1, w') \<Longrightarrow> salt w' = salt w"
  "fs_readFile p w = (r2, w') \<Longrightarrow> salt w' = salt w"
  "generateSalt w = (r3, w') \<Longrightarrow> salt w' = salt w"
  "log_call l m w = (r4, w') \<Longrightarrow> salt w' = salt w"
  "JSON_parse_io t w = (r5, w') \<Longrightarrow> salt w' = salt w"
  "get_prop_io v k w = (r6, w') \<Longrightarrow> salt w' = salt w"
  "lift_result x w = (r7, w') \<Longrightarrow> salt w' = salt w"
  by (auto simp: fs_unit_def fs_readFile_def generateSalt_def log_call_def JSON_parse_io_def get_prop_io_def
        lift_result_def dest: fs_call_salt split: prod.splits fs_result.splits sum.splits)

lemma ensureFileExists_salt: "ensureFileExists w = (r, w') \<Longrightarrow> salt w' = salt w"
  unfolding ensureFileExists_def
  by (auto elim!: io_bindE io_catchE io_ignoreE simp: io_return_def io_throw_def dest!: prim_salt)

lemma atomicWrite_salt: "atomicWrite c w = (r, w') \<Longrightarrow> salt w' = salt w"
  unfolding atomicWrite_def write_and_rename_def
  by (auto elim!: io_bindE io_catchE io_ignoreE simp: io_return_def io_throw_def
        dest!: prim_salt split: if_splits)

lemma getSalt_loaded: "truthy (salt w) \<Longrightarrow> getSalt w = (Inr (salt w), w)"
  by (simp add: getSalt_def)

lemma readAll_salt:
  assumes "readAll w = (r, w')"
  shows "salt w' = salt w"
  using readAll_cases[OF assms]
  apply (elim disjE conjE exE)
     apply simp
    apply (drule ensureFileExists_salt, simp)
   apply (drule ensureFileExists_salt, drule prim_salt(2), simp)
  apply (drule ensureFileExists_salt, drule prim_salt(2), drule sym, drule read_failed_state, simp)
  done

lemma writeOperation_salt: "truthy (salt w) \<Longrightarrow> writeOperation ts w = (r, w') \<Longrightarrow> salt w' = salt w"
  unfolding writeOperation_def
  apply (elim io_bindE io_catchE)
  apply (auto dest!: ensureFileExists_salt atomicWrite_salt prim_salt simp: getSalt_loaded update_cache_def io_throw_def
      elim!: io_bindE)
  done

lemma merge_and_write_salt: "truthy (salt w) \<Longrightarrow> merge_and_write a u w = (r, w') \<Longrightarrow> salt w' = salt w"
  unfolding merge_and_write_def mergeOperation_def
  apply (elim io_bindE io_catchE)
  apply (auto dest!: readAll_salt merge_tokens_state ensureFileExists_salt atomicWrite_salt prim_salt
      simp: getSalt_loaded update_cache_def io_throw_def io_return_def
      elim!: io_bindE io_catchE split: option.splits)
  done

lemma run_logged_salt: "truthy (salt w) \<Longrightarrow> salt (run_logged op w) = salt w"
  by (cases op; cases "queued_function op w")
     (auto simp: run_logged_def dest: writeOperation_salt merge_and_write_salt split: sum.splits)

lemma run_in_order_salt: "truthy (salt w) \<Longrightarrow> salt (run_in_order ops w) = salt w"
  by (induction ops arbitrary: w) (simp_all add: run_logged_salt)

subsection \<open>Objects: property names and lookups after a spread\<close>

lemma set_prop_names: "fst ` set (set_prop fs k v) = insert k (fst ` set fs)"
proof (induction fs)
  case Nil
  then show ?case by simp
next
  case (Cons f fs)
  then show ?case by (cases f) (simp add: insert_commute)
qed

lemma define_all_names:
  "fst ` set (foldl (\<lambda>obj (k, v). set_prop obj k v) acc kvs) = fst ` set acc \<union> fst ` set kvs"
proof (induction kvs arbitrary: acc)
  case Nil
  then show ?case by simp
next
  case (Cons kv kvs)
  obtain k v where kv: "kv = (k, v)" by (cases kv)
  show ?case by (simp add: kv Cons.IH set_prop_names)
qed

lemma object_spread_names: "fst ` set (object_spread srcs) = fst ` set (concat srcs)"
  unfolding object_spread_def by (simp only: define_all_names) simp

lemma set_prop_distinct: "distinct (map fst fs) \<Longrightarrow> distinct (map fst (set_prop fs k v))"
proof (induction fs)
  case Nil
  then show ?case by simp
next
  case (Cons f fs)
  have "fst ` set (set_prop fs k v) = insert k (fst ` set fs)" by (rule set_prop_names)
  then show ?case using Cons by (cases f) auto
qed

lemma define_all_distinct:
  "distinct (map fst acc) \<Longrightarrow> distinct (map fst (foldl (\<lambda>obj (k, v). set_prop obj k v) acc kvs))"
proof (induction kvs arbitrary: acc)
  case Nil
  then show ?case by simp
next
  case (Cons kv kvs)
  obtain k v where kv: "kv = (k, v)" by (cases kv)
  show ?case using Cons.prems by (simp add: kv Cons.IH set_prop_distinct)
qed

lemma object_spread_distinct: "distinct (map fst (object_spread srcs))"
  by (simp add: object_spread_def define_all_distinct)

lemma map_of_set_prop: "map_of (set_prop fs k v) = (map_of fs)(k \<mapsto> v)"
  by (induction fs) auto

lemma map_of_define_all:
  "map_of (foldl (\<lambda>obj (k, v). set_prop obj k v) acc kvs) = map_of acc ++ map_of (rev kvs)"
proof (induction kvs arbitrary: acc)
  case Nil
  then show ?case by simp
next
  case (Cons kv kvs)
  obtain k v where kv: "kv = (k, v)" by (cases kv)
  show ?case
    by (simp add: kv Cons.IH map_of_set_prop map_add_def fun_eq_iff split: option.splits)
qed

lemma map_of_rev_distinct: "distinct (map fst kvs) \<Longrightarrow> map_of (rev kvs) = map_of kvs"
  by (metis distinct_rev map_of_inject_set rev_map set_rev)

lemma overlay_lookup:
  assumes "distinct (map fst d)" and "distinct (map fst m)"
  shows "map_of (object_spread [d, rest_without ''sessionId'' m]) k =
           (if k \<noteq> ''sessionId'' \<and> k \<in> fst ` set m then map_of m k else map_of d k)"
proof -
  have dm: "distinct (map fst (rest_without ''sessionId'' m))"
    using assms(2) by (simp add: rest_without_def distinct_map_filter)
  have m1: "map_of (rest_without ''sessionId'' m) k = (if k = ''sessionId'' then None else map_of m k)"
    by (induction m) (auto simp: rest_without_def)
  have "map_of (object_spread [d, rest_without ''sessionId'' m]) k =
          (map_of (rev d) ++ map_of (rev (rest_without ''sessionId'' m))) k"
    by (simp add: object_spread_def map_of_define_all)
  also have "\<dots> = (map_of d ++ map_of (rest_without ''sessionId'' m)) k"
    using assms(1) dm by (simp add: map_of_rev_distinct)
  finally have eq: "map_of (object_spread [d, rest_without ''sessionId'' m]) k =
      (map_of d ++ map_of (rest_without ''sessionId'' m)) k" .
  have mem: "k \<in> fst ` set m \<longleftrightarrow> map_of m k \<noteq> None"
    by (simp add: map_of_eq_None_iff)
  show ?thesis
    unfolding eq mem by (cases "map_of m k") (simp_all add: m1 map_add_def)
qed

subsection \<open>The session field in a merge\<close>

lemma findIndex_key_bound: "findIndex_key k ts = Inr (Some i) \<Longrightarrow> i < length ts"
  by (induction ts arbitrary: i) (auto split: sum.splits if_splits option.splits)

lemma spread_no_session:
  "''sessionId'' \<notin> fst ` set d \<Longrightarrow>
     ''sessionId'' \<notin> fst ` set (object_spread [d, rest_without ''sessionId'' m])"
  by (simp only: object_spread_names) (auto simp: rest_without_def)

lemma applyUpdate_no_session:
  assumes "applyUpdate m ts = Inr ts'" and "list_all (\<lambda>t. \<not> has_session t) ts"
  shows "list_all (\<lambda>t. \<not> has_session t) ts'"
proof (cases "truthy m")
  case False
  then show ?thesis using assms by (simp add: applyUpdate_def)
next
  case True
  show ?thesis
  proof (cases "get_prop m ''refresh_token''")
    case (Inl e)
    then show ?thesis using assms True by (simp add: applyUpdate_def)
  next
    case (Inr k)
    show ?thesis
    proof (cases "findIndex_key k ts")
      case (Inl e)
      then show ?thesis using assms True Inr by (simp add: applyUpdate_def)
    next
      case found: (Inr idx)
      show ?thesis
      proof (cases idx)
        case None
        then show ?thesis using assms True Inr found by (simp add: applyUpdate_def)
      next
        case (Some i)
        have i: "i < length ts" using found Some by (simp add: findIndex_key_bound)
        then have "\<not> has_session (ts ! i)" using assms(2) by (simp add: list_all_length)
        then have new: "\<not> has_session (JObj (object_spread [own_props (ts ! i), rest_without ''sessionId'' (own_props m)]))"
          unfolding has_session_def own_props.simps by (rule spread_no_session)
        have "ts' = ts[i := JObj (object_spread [own_props (ts ! i), rest_without ''sessionId'' (own_props m)])]"
          using assms(1) True Inr found Some by (simp add: applyUpdate_def)
        then show ?thesis
          using assms(2) new by (auto simp: list_all_iff dest!: subsetD[OF set_update_subset_insert])
      qed
    qed
  qed
qed

lemma applyUpdates_no_session:
  "applyUpdates ms ts = Inr ts' \<Longrightarrow> list_all (\<lambda>t. \<not> has_session t) ts \<Longrightarrow>
     list_all (\<lambda>t. \<not> has_session t) ts'"
proof (induction ms arbitrary: ts)
  case Nil
  then show ?case by simp
next
  case (Cons m ms)
  then show ?case
    by (auto split: sum.splits dest: applyUpdate_no_session)
qed

lemma strip_session_no_session: "strip_session t = Inr t' \<Longrightarrow> \<not> has_session t'"
proof -
  have "''sessionId'' \<notin> fst ` set (object_spread [rest_without ''sessionId'' (own_props t)])"
    by (simp only: object_spread_names) (auto simp: rest_without_def)
  moreover assume "strip_session t = Inr t'"
  ultimately show ?thesis by (cases t) (auto simp: has_session_def)
qed

lemma map_strip_session_no_session:
  "map_strip_session ts = Inr ts' \<Longrightarrow> list_all (\<lambda>t. \<not> has_session t) ts'"
  by (induction ts arbitrary: ts') (auto split: sum.splits dest: strip_session_no_session)

lemma map_sum_Some: "(map_sum id Some x = Inr (Some y)) = (x = Inr y)"
  by (cases x) auto

lemma merge_tokens_no_session:
  assumes "merge_tokens a u ts w = (Inr (Some merged), w')" and "list_all (\<lambda>t. \<not> has_session t) ts"
  shows "list_all (\<lambda>t. \<not> has_session t) merged"
  using assms unfolding merge_tokens_def Let_def
  by (auto simp: io_bind_def io_return_def log_call_def lift_result_def map_sum_Some
        split: if_splits sum.splits
        dest: applyUpdate_no_session applyUpdates_no_session map_strip_session_no_session)

subsection \<open>Merging records by key\<close>

lemma filter_unique_key:
  assumes "distinct (map f xs)" and "x \<in> set xs"
  shows "filter (\<lambda>y. f y = f x) xs = [x]"
  using assms
proof (induction xs)
  case Nil
  then show ?case by simp
next
  case (Cons a xs)
  show ?case
  proof (cases "a = x")
    case True
    have "f x \<notin> f ` set xs" using Cons.prems(1) True by simp
    then have "\<forall>y\<in>set xs. f y \<noteq> f x" by (metis imageI)
    then have "filter (\<lambda>y. f y = f x) xs = []"
      by (simp add: filter_empty_conv)
    then show ?thesis using True by simp
  next
    case False
    then have "x \<in> set xs" using Cons.prems(2) by simp
    moreover have "f a \<noteq> f x" using Cons.prems(1) \<open>x \<in> set xs\<close> by auto
    ultimately show ?thesis using Cons by simp
  qed
qed

lemma is_recordE:
  assumes "is_record d"
  obtains fs s where "d = JObj fs" "distinct (map fst fs)" "map_of fs ''refresh_token'' = Some (JStr s)"
    "token_key d = Some s"
  using assms
  by (cases d) (auto simp: is_record_def split: option.splits json.splits)

lemma key_match:
  assumes "is_record d" and "truthy m" and "get_prop m ''refresh_token'' = Inr k"
      and "get_prop d ''refresh_token'' = Inr v"
  shows "strict_eq v k \<longleftrightarrow> token_key m = token_key d"
proof -
  from assms(1) obtain fs s where d: "d = JObj fs" "map_of fs ''refresh_token'' = Some (JStr s)" "token_key d = Some s"
    by (rule is_recordE)
  have v: "v = Some (JStr s)" using assms(4) d by simp
  show ?thesis
    using assms(2,3) d(3) unfolding v
    by (cases m) (auto split: option.splits json.splits)
qed

lemma findIndex_records:
  assumes "list_all is_record ts" and "truthy m" and "get_prop m ''refresh_token'' = Inr k"
  shows "case findIndex_key k ts of
           Inl e \<Rightarrow> False
         | Inr None \<Rightarrow> (\<forall>d\<in>set ts. token_key d \<noteq> token_key m)
         | Inr (Some i) \<Rightarrow> i < length ts \<and> token_key (ts ! i) = token_key m"
  using assms(1)
proof (induction ts)
  case Nil
  then show ?case by simp
next
  case (Cons d ts)
  then have rec: "is_record d" and rest: "list_all is_record ts" by simp_all
  from rec obtain fs where d: "d = JObj fs" by (rule is_recordE)
  have g: "get_prop d ''refresh_token'' = Inr (map_of fs ''refresh_token'')" by (simp add: d)
  have m: "strict_eq (map_of fs ''refresh_token'') k \<longleftrightarrow> token_key m = token_key d"
    using key_match[OF rec assms(2,3) g] .
  show ?case
    using Cons.IH[OF rest] m g
    by (auto split: sum.splits option.splits)
qed

lemma token_key_falsy: "\<not> truthy m \<Longrightarrow> token_key m = None"
  by (cases m) auto

lemma overlay_record:
  assumes "is_record d" and "distinct_names m" and "token_key m = token_key d"
  shows "is_record (overlay d m)" and "token_key (overlay d m) = token_key d"
proof -
  from assms(1) obtain fs s where d: "d = JObj fs" "distinct (map fst fs)" "token_key d = Some s"
    by (rule is_recordE)
  from assms(3) d(3) obtain gs where m: "m = JObj gs" "map_of gs ''refresh_token'' = Some (JStr s)"
    by (cases m) (auto split: option.splits json.splits)
  have gs: "distinct (map fst gs)" using assms(2) m by simp
  have "map_of gs ''refresh_token'' \<noteq> None" using m(2) by simp
  then have "''refresh_token'' \<in> fst ` set gs" by (simp only: map_of_eq_None_iff not_not)
  then have "map_of (object_spread [fs, rest_without ''sessionId'' gs]) ''refresh_token'' = Some (JStr s)"
    using overlay_lookup[OF d(2) gs, of "''refresh_token''"] m(2) by simp
  then have "token_key (overlay d m) = Some s"
    by (simp add: overlay_def d(1) m(1))
  then show k: "token_key (overlay d m) = token_key d"
    by (simp only: d(3))
  show "is_record (overlay d m)"
    using k d(3) by (simp add: is_record_def) (simp add: overlay_def object_spread_distinct)
qed

lemma applyUpdate_records:
  assumes "list_all is_record ts" and "distinct (map token_key ts)" and "distinct_names m"
  shows "applyUpdate m ts = Inr (map (\<lambda>d. if token_key m = token_key d then overlay d m else d) ts)"
proof (cases "truthy m")
  case False
  then have "token_key m = None" by (rule token_key_falsy)
  moreover have "\<forall>d\<in>set ts. token_key d \<noteq> None" using assms(1) by (auto simp: list_all_iff is_record_def)
  ultimately have "map (\<lambda>d. if token_key m = token_key d then overlay d m else d) ts = ts"
    by (intro map_idI) auto
  then show ?thesis using False by (simp add: applyUpdate_def)
next
  case True
  then obtain k where k: "get_prop m ''refresh_token'' = Inr k" by (cases m) auto
  note fi = findIndex_records[OF assms(1) True k]
  show ?thesis
  proof (cases "findIndex_key k ts")
    case (Inl e)
    then show ?thesis using fi by simp
  next
    case (Inr idx)
    show ?thesis
    proof (cases idx)
      case None
      then have "\<forall>d\<in>set ts. token_key d \<noteq> token_key m" using fi Inr by simp
      then have "map (\<lambda>d. if token_key m = token_key d then overlay d m else d) ts = ts"
        by (intro map_idI) auto
      then show ?thesis using True k Inr None by (simp add: applyUpdate_def)
    next
      case (Some i)
      then have i: "i < length ts" "token_key (ts ! i) = token_key m" using fi Inr by simp_all
      have other: "\<And>j. j < length ts \<Longrightarrow> j \<noteq> i \<Longrightarrow> token_key (ts ! j) \<noteq> token_key m"
      proof -
        fix j assume j: "j < length ts" "j \<noteq> i"
        have "map token_key ts ! j \<noteq> map token_key ts ! i"
          using nth_eq_iff_index_eq[OF assms(2), of j i] i(1) j by simp
        then show "token_key (ts ! j) \<noteq> token_key m" using i j by simp
      qed
      have "ts[i := overlay (ts ! i) m] = map (\<lambda>d. if token_key m = token_key d then overlay d m else d) ts"
      proof (rule nth_equalityI)
        show "length (ts[i := overlay (ts ! i) m]) =
                length (map (\<lambda>d. if token_key m = token_key d then overlay d m else d) ts)" by simp
      next
        fix j assume "j < length (ts[i := overlay (ts ! i) m])"
        then have j: "j < length ts" by simp
        show "ts[i := overlay (ts ! i) m] ! j =
                map (\<lambda>d. if token_key m = token_key d then overlay d m else d) ts ! j"
        proof (cases "j = i")
          case True
          then show ?thesis using i by simp
        next
          case False
          then show ?thesis using j other[OF j False] by auto
        qed
      qed
      then show ?thesis using True k Inr Some by (simp add: applyUpdate_def overlay_def)
    qed
  qed
qed

lemma applyUpdate_keeps_records:
  assumes "list_all is_record ts" and "distinct_names m"
  shows "list_all is_record (map (\<lambda>d. if token_key m = token_key d then overlay d m else d) ts)"
    and "map token_key (map (\<lambda>d. if token_key m = token_key d then overlay d m else d) ts) = map token_key ts"
  using assms by (auto simp: list_all_iff overlay_record)

lemma applyUpdates_records:
  assumes "list_all is_record ts" and "distinct (map token_key ts)" and "list_all distinct_names ms"
  shows "applyUpdates ms ts =
           Inr (map (\<lambda>d. foldl overlay d (filter (\<lambda>m. token_key m = token_key d) ms)) ts)"
  using assms
proof (induction ms arbitrary: ts)
  case Nil
  then show ?case by simp
next
  case (Cons m ms)
  let ?f = "\<lambda>d. if token_key m = token_key d then overlay d m else d"
  have m: "distinct_names m" and ms: "list_all distinct_names ms" using Cons.prems(3) by simp_all
  have step: "applyUpdate m ts = Inr (map ?f ts)"
    using Cons.prems(1,2) m by (rule applyUpdate_records)
  have rec: "list_all is_record (map ?f ts)" and keys: "map token_key (map ?f ts) = map token_key ts"
    using applyUpdate_keeps_records[OF Cons.prems(1) m] by simp_all
  have dist: "distinct (map token_key (map ?f ts))" using Cons.prems(2) by (simp only: keys)
  have kf: "\<And>d. d \<in> set ts \<Longrightarrow> token_key (?f d) = token_key d"
    using Cons.prems(1) m by (auto simp: list_all_iff overlay_record)
  have "applyUpdates ms (map ?f ts) =
          Inr (map (\<lambda>d. foldl overlay d (filter (\<lambda>m. token_key m = token_key d) ms)) (map ?f ts))"
    using rec dist ms by (rule Cons.IH)
  also have "map (\<lambda>d. foldl overlay d (filter (\<lambda>m. token_key m = token_key d) ms)) (map ?f ts) =
               map (\<lambda>d. foldl overlay d (filter (\<lambda>m'. token_key m' = token_key d) (m # ms))) ts"
    using kf by (auto simp: comp_def)
  finally show ?case using step by simp
qed

lemma spread_single_lookup:
  assumes "distinct (map fst gs)"
  shows "map_of (object_spread [rest_without ''sessionId'' gs]) k =
           (if k \<noteq> ''sessionId'' \<and> k \<in> fst ` set gs then map_of gs k else None)"
proof -
  have "object_spread [rest_without ''sessionId'' gs] = object_spread [[], rest_without ''sessionId'' gs]"
    by (simp add: object_spread_def)
  then show ?thesis
    using overlay_lookup[of "[]" gs k] assms by simp
qed

lemma strip_session_record:
  assumes "is_record m"
  shows "\<exists>m'. strip_session m = Inr m' \<and> token_key m' = token_key m"
proof -
  from assms obtain gs s where m: "m = JObj gs" "distinct (map fst gs)"
      "map_of gs ''refresh_token'' = Some (JStr s)" "token_key m = Some s"
    by (rule is_recordE)
  have "map_of gs ''refresh_token'' \<noteq> None" using m(3) by simp
  then have "''refresh_token'' \<in> fst ` set gs" by (simp only: map_of_eq_None_iff not_not)
  then have "map_of (object_spread [rest_without ''sessionId'' gs]) ''refresh_token'' = Some (JStr s)"
    using spread_single_lookup[OF m(2), of "''refresh_token''"] m(3) by simp
  then have "token_key (JObj (object_spread [rest_without ''sessionId'' gs])) = Some s" by simp
  then have "token_key (JObj (object_spread [rest_without ''sessionId'' gs])) = token_key m"
    by (simp only: m(4))
  moreover have "strip_session m = Inr (JObj (object_spread [rest_without ''sessionId'' gs]))"
    by (simp add: m(1))
  ultimately show ?thesis by blast
qed

lemma map_strip_session_records:
  "list_all is_record ms \<Longrightarrow> \<exists>ms'. map_strip_session ms = Inr ms' \<and> map token_key ms' = map token_key ms"
proof (induction ms)
  case Nil
  then show ?case by simp
next
  case (Cons m ms)
  then obtain ms' where 1: "map_strip_session ms = Inr ms'" "map token_key ms' = map token_key ms" by auto
  from Cons.prems obtain m' where 2: "strip_session m = Inr m'" "token_key m' = token_key m"
    using strip_session_record[of m] by auto
  show ?case using 1 2 by simp
qed

lemma foldl_overlay_key:
  assumes "is_record d" and "list_all distinct_names ms"
  shows "token_key (foldl overlay d (filter (\<lambda>m. token_key m = token_key d) ms)) = token_key d"
  using assms
proof (induction ms arbitrary: d)
  case Nil
  then show ?case by simp
next
  case (Cons m ms)
  show ?case
  proof (cases "token_key m = token_key d")
    case True
    have r: "is_record (overlay d m)" "token_key (overlay d m) = token_key d"
      using overlay_record[OF Cons.prems(1) _ True] Cons.prems(2) by simp_all
    have "token_key (foldl overlay (overlay d m) (filter (\<lambda>m'. token_key m' = token_key (overlay d m)) ms)) =
            token_key (overlay d m)"
      using Cons.IH[OF r(1)] Cons.prems(2) by simp
    then show ?thesis using True r(2) by simp
  next
    case False
    then show ?thesis using Cons.IH[OF Cons.prems(1)] Cons.prems(2) by simp
  qed
qed


subsection \<open>What a write and a merge leave in the store file\<close>

lemma merge_persist_quiet:
  assumes "faults w = []" and "writeQueue w = Inr ()"
      and "mergeOperation a u w = (Inr (Some merged), w0)"
  shows "\<exists>s w'. mergeActiveTokens a u w = (Inr (), w') \<and>
           store_file w' = Some (JSON_stringify (store_document s merged)) \<and> cache w' = Some merged"
proof -
  have f0: "faults w0 = []"
    using assms(1,3) unfolding mergeOperation_def
    by (auto elim!: io_bindE dest!: readAll_quiet[OF assms(1)] merge_tokens_state)
  obtain s w1 w2 where p: "ensureFileExists w0 = (Inr (), w1)" "getSalt w1 = (Inr s, w2)" "faults w2 = []" "kept w0 w2"
    using persist_quiet[OF f0] by blast
  show ?thesis
    using p assms(2,3)
    by (intro exI[of _ s])
       (simp add: mergeActiveTokens_def settle_queue_def promise_then_def merge_and_write_def io_bind_def io_catch_def
          atomicWrite_quiet update_cache_def)
qed

lemma stored_document_tokens: "stored_tokens (JSON_stringify (store_document s ts)) = Some ts"
  by (simp add: stored_tokens_def JSON_stringify_def store_document_def)

lemma writeAll_persists:
  assumes "faults w = []" and "writeQueue w = Inr ()"
  shows "fst (writeAll tokens w) = Inr () \<and> persisted_tokens (snd (writeAll tokens w)) = Some (normalize_tokens tokens)"
proof -
  obtain s w' where p: "writeOperation (normalize_tokens tokens) w = (Inr (), w')"
      "store_file w' = Some (JSON_stringify (store_document s (normalize_tokens tokens)))"
    using writeOperation_quiet[OF assms(1)] by blast
  show ?thesis
    using p assms(2)
    by (simp add: writeAll_def settle_queue_def io_catch_def promise_then_def persisted_tokens_def
          stored_document_tokens)
qed

lemma merge_persists:
  assumes "faults w = []" and "writeQueue w = Inr ()"
      and "readAll w = (Inr ts, w0)" and "merge_tokens a u ts w0 = (Inr (Some merged), w0')"
  shows "fst (mergeActiveTokens a u w) = Inr () \<and> persisted_tokens (snd (mergeActiveTokens a u w)) = Some merged"
proof -
  have "mergeOperation a u w = (Inr (Some merged), w0')"
    using assms(3,4) by (simp add: mergeOperation_def io_bind_def)
  from merge_persist_quiet[OF assms(1,2) this] show ?thesis
    by (auto simp: persisted_tokens_def stored_document_tokens)
qed

lemma merge_tokens_update_records:
  assumes "ts \<noteq> []" and "list_all is_record ts" and "distinct (map token_key ts)"
      and "list_all distinct_names (applied_records a u)"
  shows "merge_tokens a u ts w =
           (Inr (Some (map (\<lambda>d. foldl overlay d (filter (\<lambda>m. token_key m = token_key d) (applied_records a u))) ts)), w)"
proof (cases "truthy u")
  case True
  then have ap: "applied_records a u = [u]" by (simp add: applied_records_def)
  then have "distinct_names u" using assms(4) by simp
  then have "applyUpdate u ts = Inr (map (\<lambda>d. if token_key u = token_key d then overlay d u else d) ts)"
    using assms(2,3) by (intro applyUpdate_records)
  then show ?thesis
    using True assms(1) by (simp add: merge_tokens_def Let_def lift_result_def ap)
next
  case False
  then have ap: "applied_records a u = normalize_tokens a" by (simp add: applied_records_def)
  have up: "applyUpdates (normalize_tokens a) ts =
          Inr (map (\<lambda>d. foldl overlay d (filter (\<lambda>m. token_key m = token_key d) (normalize_tokens a))) ts)"
    using assms(2,3,4) unfolding ap by (intro applyUpdates_records)
  show ?thesis
  proof (cases "case a of JArr ms \<Rightarrow> ms \<noteq> [] | _ \<Rightarrow> False")
    case True
    then show ?thesis using False assms(1) up by (simp add: merge_tokens_def Let_def lift_result_def ap)
  next
    case none: False
    then have "normalize_tokens a = []" by (cases a) auto
    then show ?thesis using False assms(1) none by (simp add: merge_tokens_def Let_def io_return_def ap)
  qed
qed


section \<open>The write queue\<close>

text \<open>
  C1, as the code has it. On a store whose queue is fulfilled, submitting any sequence of
  \<^verbatim>\<open>writeAll\<close> and \<^verbatim>\<open>mergeActiveTokens\<close> calls leaves the state that running
  the queued functions one after the other leaves, where a function that throws has its
  failure logged and the next one is run all the same: no failure tears the queue down,
  and the queue is fulfilled at the end.
  The promise returned to each caller is the promise of the queue after its
  \<^verbatim>\<open>catch\<close>, and it is fulfilled, also when the operation has failed.
\<close>

theorem queue_survives_failures:
  assumes "writeQueue w = Inr ()"
  shows "submit_all ops w = (replicate (length ops) (Inr ()), run_in_order ops w) \<and>
         writeQueue (run_in_order ops w) = Inr ()"
  using assms
proof (induction ops arbitrary: w)
  case Nil
  then show ?case by simp
next
  case (Cons op ops)
  have "writeQueue (run_logged op w) = Inr ()" using Cons.prems by (rule run_logged_queue)
  then have "submit_all ops (run_logged op w) =
      (replicate (length ops) (Inr ()), run_in_order ops (run_logged op w)) \<and>
      writeQueue (run_in_order ops (run_logged op w)) = Inr ()"
    by (rule Cons.IH)
  then show ?case using submit_fulfilled[OF Cons.prems, of op] by simp
qed

text \<open>
  The theorem where the first of two writes fails in its atomic write: both promises are
  fulfilled and the second write is in the store file.
\<close>

theorem queue_survives_failures_witness:
  "writeQueue failing_disk_store = Inr () \<and>
   fst (queued_function (WriteAll (JArr [token_a])) failing_disk_store) = Inl (FsError EIO) \<and>
   submit_all [WriteAll (JArr [token_a]), WriteAll (JArr [token_b])] failing_disk_store =
     ([Inr (), Inr ()], run_in_order [WriteAll (JArr [token_a]), WriteAll (JArr [token_b])] failing_disk_store) \<and>
   persisted_tokens (run_in_order [WriteAll (JArr [token_a]), WriteAll (JArr [token_b])] failing_disk_store) =
     Some [token_b]"
  using queue_survives_failures[of failing_disk_store "[WriteAll (JArr [token_a]), WriteAll (JArr [token_b])]"]
  by (simp add: world_defs eval_defs prop_defs)

text \<open>
  C1 as stated fails in its first part. The function queued by \<^verbatim>\<open>mergeActiveTokens\<close>
  throws EACCES, from the write of the bootstrap, and the promise returned to the caller
  is fulfilled; on the other disk the atomic write of the merge fails with EIO, the
  failure is logged, and the promise returned to the caller is fulfilled.
\<close>

theorem merge_failure_not_reported:
  "fst (queued_function (MergeActiveTokens (JArr [token_a]) JNull) unwritable_disk_store) =
     Inl (FsError EACCES) \<and>
   fst (submit (MergeActiveTokens (JArr [token_a]) JNull) unwritable_disk_store) = Inr () \<and>
   log (snd (submit (MergeActiveTokens (JArr [token_a_active]) JNull) write_fails_store)) =
     [(INFO, Created_file), (ERROR, Save_failed (FsError EIO))] \<and>
   fst (submit (MergeActiveTokens (JArr [token_a_active]) JNull) write_fails_store) = Inr ()"
  by (simp add: world_defs eval_defs)

section \<open>Keys and the session field in the persisted records\<close>

text \<open>
  C2, as the code has it. When the file-system calls succeed, the persisted sequence has
  at most one record per key whenever the sequence the operation starts from has:
  \<^verbatim>\<open>writeAll\<close> persists its input sequence as it is; a merge over a non-empty
  sequence of records with distinct keys persists a sequence with the same keys in the
  same order; a merge that initialises an empty store from active records persists a
  sequence with the keys of the active records, in their order.
\<close>

theorem keys_kept_by_write_and_merge:
  assumes "faults w = []" and "writeQueue w = Inr ()"
  shows "(\<exists>p. persisted_tokens (snd (writeAll tokens w)) = Some p \<and> p = normalize_tokens tokens \<and>
            (distinct (map token_key (normalize_tokens tokens)) \<longrightarrow> distinct (map token_key p))) \<and>
         (\<forall>ts w0. readAll w = (Inr ts, w0) \<and> ts \<noteq> [] \<and> list_all is_record ts \<and> distinct (map token_key ts) \<and>
             list_all distinct_names (applied_records activeTokens tokenToUpdate) \<longrightarrow>
               (\<exists>p. persisted_tokens (snd (mergeActiveTokens activeTokens tokenToUpdate w)) = Some p \<and>
                    map token_key p = map token_key ts \<and> distinct (map token_key p))) \<and>
         (\<forall>ms w0. readAll w = (Inr [], w0) \<and> lastReadOk w0 \<and> activeTokens = JArr ms \<and> ms \<noteq> [] \<and>
             list_all is_record ms \<longrightarrow>
               (\<exists>p. persisted_tokens (snd (mergeActiveTokens activeTokens tokenToUpdate w)) = Some p \<and>
                    map token_key p = map token_key ms))"
proof (intro conjI allI impI)
  show "\<exists>p. persisted_tokens (snd (writeAll tokens w)) = Some p \<and> p = normalize_tokens tokens \<and>
            (distinct (map token_key (normalize_tokens tokens)) \<longrightarrow> distinct (map token_key p))"
    using writeAll_persists[OF assms] by simp
next
  fix ts w0
  assume h: "readAll w = (Inr ts, w0) \<and> ts \<noteq> [] \<and> list_all is_record ts \<and> distinct (map token_key ts) \<and>
             list_all distinct_names (applied_records activeTokens tokenToUpdate)"
  let ?p = "map (\<lambda>d. foldl overlay d (filter (\<lambda>m. token_key m = token_key d)
                 (applied_records activeTokens tokenToUpdate))) ts"
  have "merge_tokens activeTokens tokenToUpdate ts w0 = (Inr (Some ?p), w0)"
    using h by (intro merge_tokens_update_records) simp_all
  then have p: "persisted_tokens (snd (mergeActiveTokens activeTokens tokenToUpdate w)) = Some ?p"
    using merge_persists[OF assms] h by blast
  have k: "map token_key ?p = map token_key ts"
    using h by (auto simp: list_all_iff intro!: foldl_overlay_key)
  show "\<exists>p. persisted_tokens (snd (mergeActiveTokens activeTokens tokenToUpdate w)) = Some p \<and>
            map token_key p = map token_key ts \<and> distinct (map token_key p)"
    using p k h by (intro exI[of _ ?p]) (simp only: simp_thms)
next
  fix ms w0
  assume h: "readAll w = (Inr [], w0) \<and> lastReadOk w0 \<and> activeTokens = JArr ms \<and> ms \<noteq> [] \<and>
             list_all is_record ms"
  then obtain ms' where s: "map_strip_session ms = Inr ms'" "map token_key ms' = map token_key ms"
    using map_strip_session_records by blast
  have "merge_tokens activeTokens tokenToUpdate [] w0 = (Inr (Some ms'), w0)"
    using h s by (simp add: merge_tokens_def lift_result_def)
  then have "persisted_tokens (snd (mergeActiveTokens activeTokens tokenToUpdate w)) = Some ms'"
    using merge_persists[OF assms] h by blast
  then show "\<exists>p. persisted_tokens (snd (mergeActiveTokens activeTokens tokenToUpdate w)) = Some p \<and>
            map token_key p = map token_key ms"
    using s by blast
qed

text \<open>The theorem at a merge of two active records into the store that holds their two on-disk records.\<close>

theorem keys_kept_by_write_and_merge_witness:
  "faults two_token_store = [] \<and> writeQueue two_token_store = Inr () \<and>
   readAll two_token_store = (Inr [token_a, token_b], two_token_store) \<and>
   list_all is_record [token_a, token_b] \<and> distinct (map token_key [token_a, token_b]) \<and>
   list_all distinct_names (applied_records (JArr [token_a_active, token_b_active]) JNull) \<and>
   map token_key (the (persisted_tokens
      (snd (mergeActiveTokens (JArr [token_a_active, token_b_active]) JNull two_token_store)))) =
     [Some ''a'', Some ''b'']"
  using keys_kept_by_write_and_merge[of two_token_store "JNull" "JArr [token_a_active, token_b_active]" JNull]
  by (simp add: world_defs eval_defs prop_defs)

text \<open>
  C2 as stated fails for \<^verbatim>\<open>writeAll\<close> on an input with a duplicate key: both
  records are persisted.
\<close>

theorem writeAll_duplicate_keys_counterexample:
  "persisted_tokens (snd (writeAll (JArr [token_a, token_a]) new_store)) = Some [token_a, token_a] \<and>
   \<not> distinct (map token_key [token_a, token_a])"
  by (simp add: world_defs eval_defs prop_defs)

text \<open>
  C3, as the code has it. When the file-system calls succeed: \<^verbatim>\<open>writeAll\<close> persists
  its input records as they are, so that the persisted sequence has no record with the
  session field whenever the input has none. Whenever a merge produces a sequence to
  write from a sequence read that has no record with the session field, the persisted
  sequence is that merged sequence and has no record with the session field, whatever
  the active tokens and \<^verbatim>\<open>tokenToUpdate\<close> carry.
\<close>

theorem session_field_not_written:
  assumes "faults w = []" and "writeQueue w = Inr ()"
  shows "(\<exists>p. persisted_tokens (snd (writeAll tokens w)) = Some p \<and> p = normalize_tokens tokens \<and>
            (list_all (\<lambda>t. \<not> has_session t) (normalize_tokens tokens) \<longrightarrow> list_all (\<lambda>t. \<not> has_session t) p)) \<and>
         (\<forall>ts w0 merged w1.
            readAll w = (Inr ts, w0) \<and> merge_tokens activeTokens tokenToUpdate ts w0 = (Inr (Some merged), w1) \<and>
            list_all (\<lambda>t. \<not> has_session t) ts \<longrightarrow>
              persisted_tokens (snd (mergeActiveTokens activeTokens tokenToUpdate w)) = Some merged \<and>
              list_all (\<lambda>t. \<not> has_session t) merged)"
  using writeAll_persists[OF assms, of tokens] merge_persists[OF assms] merge_tokens_no_session
  by (intro conjI) (simp, blast)

text \<open>The theorem at a merge of two active records that carry the session field.\<close>

theorem session_field_not_written_witness:
  "faults two_token_store = [] \<and> writeQueue two_token_store = Inr () \<and>
   readAll two_token_store = (Inr [token_a, token_b], two_token_store) \<and>
   list_all (\<lambda>t. \<not> has_session t) [token_a, token_b] \<and>
   has_session token_a_active \<and> has_session token_b_active \<and>
   persisted_tokens (snd (mergeActiveTokens (JArr [token_a_active, token_b_active]) JNull two_token_store)) =
     Some [JObj [(''refresh_token'', JStr ''a''), (''access_token'', JStr ''new'')],
           JObj [(''refresh_token'', JStr ''b''), (''enable'', JBool True)]]"
  using session_field_not_written[of two_token_store "JNull" "JArr [token_a_active, token_b_active]" JNull]
  by (simp add: world_defs eval_defs prop_defs)

text \<open>
  C3 as stated fails for \<^verbatim>\<open>writeAll\<close>: a record given with the session field is
  persisted with it.
\<close>

theorem writeAll_session_counterexample:
  "persisted_tokens (snd (writeAll (JArr [token_a_active]) new_store)) = Some [token_a_active] \<and>
   has_session token_a_active"
  by (simp add: world_defs eval_defs prop_defs)

section \<open>Writing and reading back\<close>

text \<open>
  C4. For every sequence of records \<open>R\<close>: when the file-system calls succeed and the
  queue is fulfilled, \<^verbatim>\<open>writeAll(R)\<close> fulfils its promise and leaves a store file whose
  token sequence is \<open>R\<close>; a \<^verbatim>\<open>readAll()\<close> in the state it leaves, at a later time
  \<open>t\<close> at which the cache has expired and with nothing else changed, returns \<open>R\<close>
  itself: the same records in the same order. That read takes \<open>R\<close> from the file and
  not from the cache: with any other cache in its place, and with none (a new instance
  over the same file), it reads the store file, returns \<open>R\<close>, sets the health flag and
  caches \<open>R\<close>. Records are JSON values, so that parsing the text written gives back the
  value written.
\<close>

theorem writeAll_readAll_round_trip:
  assumes "faults w = []" and "writeQueue w = Inr ()"
      and "writeAll (JArr R) w = (r, w1)" and "cacheTTL w1 \<le> t - cacheTime w1"
  shows "r = Inr () \<and> persisted_tokens w1 = Some R \<and>
         fst (readAll (w1\<lparr>now := t\<rparr>)) = Inr R \<and>
         (\<forall>c. \<exists>w2. readAll (w1\<lparr>now := t, cache := c\<rparr>) = (Inr R, w2) \<and> lastReadOk w2 \<and> cache w2 = Some R \<and>
                calls_since (w1\<lparr>now := t, cache := c\<rparr>) w2 =
                  [(Mkdir, None), (Access StoreFile, None), (ReadFile StoreFile, None)])"
proof -
  obtain s w' where p: "writeOperation R w = (Inr (), w')" "faults w' = []"
      "store_file w' = Some (JSON_stringify (store_document s R))" "cache w' = Some R"
      "cacheTTL w' = cacheTTL w" "cacheTime w' = now w"
    using writeOperation_quiet[OF assms(1)] by blast
  have w1: "w1 = w'\<lparr>writeQueue := Inr ()\<rparr>" and r: "r = Inr ()"
    using assms(2,3) p(1)
    by (auto simp: writeAll_def settle_queue_def io_catch_def promise_then_def)
  have stored: "persisted_tokens w1 = Some R"
    using p(3) by (simp add: w1 persisted_tokens_def stored_document_tokens)
  have read: "readAll (w1\<lparr>now := t, cache := c\<rparr>) =
           (Inr R, w1\<lparr>now := t, cache := c,
                      trace := trace w1 @ [(Mkdir, None), (Access StoreFile, None), (ReadFile StoreFile, None)],
                      cache := Some R, lastReadOk := True, cacheTime := t\<rparr>)" for c
  proof -
    let ?v = "w1\<lparr>now := t, cache := c\<rparr>"
    have "faults ?v = []" "\<not> isCacheValid ?v" "store_file ?v = Some (JSON_stringify (store_document s R))"
      using p assms(4) by (auto simp: w1 isCacheValid_def split: option.splits)
    then show ?thesis by (simp add: readAll_expired_ok stored_document_tokens)
  qed
  have "w1\<lparr>now := t\<rparr> = w1\<lparr>now := t, cache := cache w1\<rparr>" by simp
  then have one: "fst (readAll (w1\<lparr>now := t\<rparr>)) = Inr R"
    using read[of "cache w1"] by simp
  have all: "\<exists>w2. readAll (w1\<lparr>now := t, cache := c\<rparr>) = (Inr R, w2) \<and> lastReadOk w2 \<and> cache w2 = Some R \<and>
                calls_since (w1\<lparr>now := t, cache := c\<rparr>) w2 =
                  [(Mkdir, None), (Access StoreFile, None), (ReadFile StoreFile, None)]" for c
    by (simp add: read calls_since_def)
  show ?thesis using r stored one all by blast
qed

text \<open>
  The theorem at a new store and two records: the file holds them, and they are read back
  after the freshness window, by the instance that wrote them and by one without a cache.
\<close>

theorem writeAll_readAll_round_trip_witness:
  "faults new_store = [] \<and> writeQueue new_store = Inr () \<and>
   cacheTTL (snd (writeAll (JArr [token_a, token_b]) new_store)) \<le>
     5000 - cacheTime (snd (writeAll (JArr [token_a, token_b]) new_store)) \<and>
   fst (writeAll (JArr [token_a, token_b]) new_store) = Inr () \<and>
   persisted_tokens (snd (writeAll (JArr [token_a, token_b]) new_store)) = Some [token_a, token_b] \<and>
   fst (readAll ((snd (writeAll (JArr [token_a, token_b]) new_store))\<lparr>now := 5000\<rparr>)) = Inr [token_a, token_b] \<and>
   fst (readAll ((snd (writeAll (JArr [token_a, token_b]) new_store))\<lparr>now := 5000, cache := None\<rparr>)) =
     Inr [token_a, token_b]"
  using writeAll_readAll_round_trip[of new_store "[token_a, token_b]"
          "fst (writeAll (JArr [token_a, token_b]) new_store)"
          "snd (writeAll (JArr [token_a, token_b]) new_store)" 5000]
  by (simp add: world_defs eval_defs prop_defs)

section \<open>The merge\<close>

text \<open>
  C5. When the file-system calls succeed and the merge has read a non-empty sequence of
  records with distinct keys, the merge is an update by key. The persisted sequence has
  the length of the sequence read, so no record is inserted. Without a
  \<^verbatim>\<open>tokenToUpdate\<close> and with one active record per key: for each active record whose
  key is the key of a record read, the persisted record at that position is the record
  read overlaid with the active record. In general the records applied are the active
  records, or \<^verbatim>\<open>tokenToUpdate\<close> alone when the caller supplies it, and the persisted
  record at each position is the record read there overlaid, one after the other, with the
  applied records that have its key: with exactly one such record it is the record read
  overlaid with that record, with none it is the record read. An overlay holds, under each
  name, the field of the applied record if that record has the name and the name is not
  the session field, and the field of the record read otherwise: fields of the record
  read that the applied record lacks survive.
\<close>

theorem merge_updates_by_key:
  assumes "faults w = []" and "writeQueue w = Inr ()"
      and "readAll w = (Inr ts, w0)" and "ts \<noteq> []"
      and "list_all is_record ts" and "distinct (map token_key ts)"
      and "list_all distinct_names (applied_records activeTokens tokenToUpdate)"
  shows "\<exists>p. persisted_tokens (snd (mergeActiveTokens activeTokens tokenToUpdate w)) = Some p \<and>
           length p = length ts \<and>
           (\<not> truthy tokenToUpdate \<and> distinct (map token_key (normalize_tokens activeTokens)) \<longrightarrow>
              (\<forall>m \<in> set (normalize_tokens activeTokens). \<forall>i<length ts.
                 token_key m = token_key (ts ! i) \<longrightarrow> p ! i = overlay (ts ! i) m)) \<and>
           (\<forall>i<length ts.
              p ! i = foldl overlay (ts ! i)
                        (filter (\<lambda>m. token_key m = token_key (ts ! i)) (applied_records activeTokens tokenToUpdate)) \<and>
              (\<forall>m. filter (\<lambda>m. token_key m = token_key (ts ! i)) (applied_records activeTokens tokenToUpdate) = [m]
                    \<longrightarrow> p ! i = overlay (ts ! i) m) \<and>
              (filter (\<lambda>m. token_key m = token_key (ts ! i)) (applied_records activeTokens tokenToUpdate) = []
                    \<longrightarrow> p ! i = ts ! i)) \<and>
           (\<forall>fs gs k. distinct (map fst fs) \<and> distinct (map fst gs) \<longrightarrow>
              get_prop (overlay (JObj fs) (JObj gs)) k =
                Inr (if k \<noteq> ''sessionId'' \<and> k \<in> fst ` set gs then map_of gs k else map_of fs k))"
proof -
  let ?as = "applied_records activeTokens tokenToUpdate"
  let ?p = "map (\<lambda>d. foldl overlay d (filter (\<lambda>m. token_key m = token_key d) ?as)) ts"
  have "merge_tokens activeTokens tokenToUpdate ts w0 = (Inr (Some ?p), w0)"
    using assms(4-7) by (rule merge_tokens_update_records)
  then have p: "persisted_tokens (snd (mergeActiveTokens activeTokens tokenToUpdate w)) = Some ?p"
    using merge_persists[OF assms(1,2,3)] by blast
  have fields: "\<forall>fs gs k. distinct (map fst fs) \<and> distinct (map fst gs) \<longrightarrow>
              get_prop (overlay (JObj fs) (JObj gs)) k =
                Inr (if k \<noteq> ''sessionId'' \<and> k \<in> fst ` set gs then map_of gs k else map_of fs k)"
    by (simp add: overlay_def overlay_lookup)
  have each: "?p ! i = overlay (ts ! i) m"
    if "\<not> truthy tokenToUpdate" "distinct (map token_key (normalize_tokens activeTokens))"
       "m \<in> set (normalize_tokens activeTokens)" "i < length ts" "token_key m = token_key (ts ! i)" for m i
  proof -
    have "filter (\<lambda>y. token_key y = token_key m) (normalize_tokens activeTokens) = [m]"
      using that(2,3) by (rule filter_unique_key)
    then have "filter (\<lambda>y. token_key y = token_key (ts ! i)) ?as = [m]"
      using that(1,5) by (simp add: applied_records_def)
    then show ?thesis using that(4) by simp
  qed
  show ?thesis
    using p fields each by (intro exI[of _ ?p]) simp
qed

text \<open>
  The theorem at a merge of two active records into a store of two records: the on-disk
  record with the key of the first takes the new access token and keeps its key, the
  session field is not written, the other on-disk record stays, and the second active
  record, whose key is on no on-disk record, is not inserted.
\<close>

theorem merge_updates_by_key_witness:
  "faults two_token_store = [] \<and> writeQueue two_token_store = Inr () \<and>
   readAll two_token_store = (Inr [token_a, token_b], two_token_store) \<and>
   list_all is_record [token_a, token_b] \<and> distinct (map token_key [token_a, token_b]) \<and>
   list_all distinct_names (applied_records (JArr [token_a_active, token_c_active]) JNull) \<and>
   \<not> truthy JNull \<and> distinct (map token_key (normalize_tokens (JArr [token_a_active, token_c_active]))) \<and>
   token_key token_a_active = token_key token_a \<and>
   overlay token_a token_a_active = JObj [(''refresh_token'', JStr ''a''), (''access_token'', JStr ''new'')] \<and>
   persisted_tokens (snd (mergeActiveTokens (JArr [token_a_active, token_c_active]) JNull two_token_store)) =
     Some [JObj [(''refresh_token'', JStr ''a''), (''access_token'', JStr ''new'')], token_b]"
  using merge_updates_by_key[of two_token_store "[token_a, token_b]" two_token_store
          "JArr [token_a_active, token_c_active]" JNull]
  by (simp add: world_defs eval_defs prop_defs)

text \<open>
  A merge with a \<^verbatim>\<open>tokenToUpdate\<close>: that record alone is applied, to the on-disk record
  with its key, and the active records are not looked at.
\<close>

lemma merge_single_update_example:
  "fst (readAll two_token_store) = Inr [token_a, token_b] \<and>
   token_key token_a_active = token_key token_a \<and>
   persisted_tokens (snd (mergeActiveTokens (JArr [token_a_active]) token_b_active two_token_store)) =
     Some [token_a, JObj [(''refresh_token'', JStr ''b''), (''enable'', JBool True)]] \<and>
   overlay token_a token_a_active \<noteq> token_a"
  by (simp add: world_defs eval_defs prop_defs)

lemma merge_skips_write:
  assumes "readAll w = (Inr [], w1)" and "\<not> lastReadOk w1" and "writeQueue w = Inr ()"
  shows "mergeActiveTokens activeTokens tokenToUpdate w =
           (Inr (), w1\<lparr>log := log w1 @ [(WARN, Merge_skipped)]\<rparr>)"
proof -
  have "writeQueue w1 = Inr ()" using assms(1,3) readAll_queue by metis
  then have eq: "\<And>l. w1\<lparr>log := l, writeQueue := Inr ()\<rparr> = w1\<lparr>log := l\<rparr>"
    by (cases w1) simp
  show ?thesis
    using assms
    by (simp add: mergeActiveTokens_def settle_queue_def promise_then_def merge_and_write_def
          mergeOperation_def merge_tokens_def io_bind_def io_catch_def io_return_def log_call_def Let_def eq)
qed

text \<open>
  C6, as the code has it. If the read at the start of a merge returns the empty sequence
  and leaves the health flag false, then, for every active-records input, every
  \<^verbatim>\<open>tokenToUpdate\<close> and whatever the platform does to the file-system calls,
  \<^verbatim>\<open>mergeActiveTokens\<close> returns in the state that the read has left with one
  warning added to the log and nothing else changed: no file-system call is made after
  the read, so the merge writes nothing after it. The cache is the cache from before the
  merge. The store file is the file from before the merge whenever no \<^verbatim>\<open>fs.access\<close>
  of the read has failed, be it that the read of the file then fails or that the file is
  damaged; in particular whenever the file-system calls all succeed.
\<close>

theorem merge_aborts_after_failed_read:
  assumes "readAll w = (Inr [], w1)" and "\<not> lastReadOk w1" and "writeQueue w = Inr ()"
  shows "mergeActiveTokens activeTokens tokenToUpdate w =
           (Inr (), w1\<lparr>log := log w1 @ [(WARN, Merge_skipped)]\<rparr>) \<and>
         cache w1 = cache w \<and>
         ((\<forall>e. (Access StoreFile, Some e) \<notin> set (calls_since w w1)) \<longrightarrow> store_file w1 = store_file w) \<and>
         (faults w = [] \<longrightarrow> store_file w1 = store_file w)"
  using merge_skips_write[OF assms] readAll_unhealthy_cache[OF assms(1,2)]
    readAll_unhealthy_file[OF _ assms(1,2)] readAll_keeps_accessible_file[OF assms(1)]
  by simp

text \<open>
  The theorem at a store whose file holds two records and cannot be read (EIO) after a
  successful \<^verbatim>\<open>fs.access\<close>: the merge returns, and the file still holds the two records.
\<close>

theorem merge_aborts_after_failed_read_witness:
  "fst (readAll read_error_store) = Inr [] \<and> \<not> lastReadOk (snd (readAll read_error_store)) \<and>
   writeQueue read_error_store = Inr () \<and>
   calls_since read_error_store (snd (readAll read_error_store)) =
     [(Mkdir, None), (Access StoreFile, None), (ReadFile StoreFile, Some EIO)] \<and>
   fst (mergeActiveTokens (JArr [token_a_active]) JNull read_error_store) = Inr () \<and>
   store_file (snd (mergeActiveTokens (JArr [token_a_active]) JNull read_error_store)) =
     store_file read_error_store \<and>
   store_file read_error_store = Some (JSON_stringify (store_document (JStr ''salt-9'') [token_a, token_b])) \<and>
   cache (snd (mergeActiveTokens (JArr [token_a_active]) JNull read_error_store)) = None \<and>
   log (snd (mergeActiveTokens (JArr [token_a_active]) JNull read_error_store)) =
     [(ERROR, Read_failed (FsError EIO)), (WARN, Merge_skipped)]"
  using merge_aborts_after_failed_read[of read_error_store "snd (readAll read_error_store)"
          "JArr [token_a_active]" JNull]
  by (simp add: world_defs eval_defs)

text \<open>
  C6 as stated fails when the \<^verbatim>\<open>fs.access\<close> of the merge's read fails: the bootstrap of
  that read then writes a new document with no tokens, and when the read of the file fails
  after it, the read returns the empty sequence with the health flag false and the merge
  is skipped, with the store file changed by the merge call. In \<open>missing_file_store\<close>
  there was no file and there is one afterwards. In \<open>flaky_store\<close> the file held two
  records, \<^verbatim>\<open>fs.access\<close> failed with EACCES, and the file holds no record afterwards.
\<close>

theorem merge_bootstrap_write_counterexample:
  "store_file missing_file_store = None \<and>
   fst (readAll missing_file_store) = Inr [] \<and> \<not> lastReadOk (snd (readAll missing_file_store)) \<and>
   fst (mergeActiveTokens (JArr [token_a_active]) JNull missing_file_store) = Inr () \<and>
   store_file (snd (mergeActiveTokens (JArr [token_a_active]) JNull missing_file_store)) =
     Some (JSON_stringify (store_document (JStr ''salt-0'') [])) \<and>
   calls_since missing_file_store (snd (mergeActiveTokens (JArr [token_a_active]) JNull missing_file_store)) =
     [(Mkdir, None), (Access StoreFile, Some ENOENT),
      (WriteFile StoreFile (JSON_stringify (store_document (JStr ''salt-0'') [])), None),
      (ReadFile StoreFile, Some EIO)] \<and>
   store_file flaky_store = Some (JSON_stringify (store_document (JStr ''salt-9'') [token_a, token_b])) \<and>
   fst (readAll flaky_store) = Inr [] \<and> \<not> lastReadOk (snd (readAll flaky_store)) \<and>
   fst (mergeActiveTokens (JArr [token_a_active]) JNull flaky_store) = Inr () \<and>
   store_file (snd (mergeActiveTokens (JArr [token_a_active]) JNull flaky_store)) =
     Some (JSON_stringify (store_document (JStr ''salt-0'') [])) \<and>
   calls_since flaky_store (snd (mergeActiveTokens (JArr [token_a_active]) JNull flaky_store)) =
     [(Mkdir, None), (Access StoreFile, Some EACCES),
      (WriteFile StoreFile (JSON_stringify (store_document (JStr ''salt-0'') [])), None),
      (ReadFile StoreFile, Some EIO)]"
  by (simp add: world_defs eval_defs)

text \<open>A store whose file holds invalid JSON: the merge is skipped and the file is still there.\<close>

lemma merge_skipped_on_damaged_file:
  "fst (readAll unreadable_store) = Inr [] \<and> \<not> lastReadOk (snd (readAll unreadable_store)) \<and>
   fst (mergeActiveTokens (JArr [token_a]) JNull unreadable_store) = Inr () \<and>
   store_file (snd (mergeActiveTokens (JArr [token_a]) JNull unreadable_store)) = Some BadText \<and>
   cache (snd (mergeActiveTokens (JArr [token_a]) JNull unreadable_store)) = None \<and>
   log (snd (mergeActiveTokens (JArr [token_a]) JNull unreadable_store)) =
     [(ERROR, Read_failed SyntaxError), (WARN, Merge_skipped)]"
  by (simp add: world_defs eval_defs)

section \<open>Reading a damaged file\<close>

text \<open>
  C7. If the store holds a cached sequence (a read or a write has filled the cache), the
  cache has expired, the file-system calls succeed, and the store file holds a text that
  is not valid JSON or that parses to neither an array nor an object with a
  \<^verbatim>\<open>tokens\<close> array, then \<^verbatim>\<open>readAll\<close> does not throw and returns the cached
  sequence, not the empty sequence of a store without a cache: a non-empty cached sequence
  is never answered by an empty one. The read keeps the cache, sets the health flag to
  false, renews the timestamp of the cache and leaves the file as it is.
\<close>

theorem readAll_serves_stale_cache:
  assumes "faults w = []" and "cache w = Some c" and "\<not> isCacheValid w"
      and "store_file w = Some t" and "stored_tokens t = None"
  shows "\<exists>w'. readAll w = (Inr c, w') \<and> cache w' = Some c \<and> \<not> lastReadOk w' \<and> cacheTime w' = now w \<and>
           store_file w' = Some t \<and> (c \<noteq> [] \<longrightarrow> fst (readAll w) \<noteq> Inr [])"
proof -
  let ?w1 = "w\<lparr>trace := trace w @ [(Mkdir, None), (Access StoreFile, None)]\<rparr>"
  let ?w2 = "?w1\<lparr>trace := trace ?w1 @ [(ReadFile StoreFile, None)]\<rparr>"
  have e: "ensureFileExists w = (Inr (), ?w1)"
    using assms(1,4) by (rule ensureFileExists_present)
  have r: "fs_readFile StoreFile ?w1 = (Inr t, ?w2)"
    using assms(1,4) by (simp add: fs_readFile_quiet)
  obtain w' where "readAll w = (Inr c, w')" "cache w' = Some c" "\<not> lastReadOk w'" "cacheTime w' = now w"
      "store_file w' = store_file ?w2"
    using readAll_stale_after_bad_read[OF assms(2,3) e r assms(5)] by blast
  then show ?thesis using assms(4) by auto
qed

text \<open>The theorem at a store that has written one record and whose file was then replaced by invalid JSON.\<close>

theorem readAll_serves_stale_cache_witness:
  "faults corrupted_store = [] \<and> cache corrupted_store = Some [token_a] \<and> \<not> isCacheValid corrupted_store \<and>
   store_file corrupted_store = Some BadText \<and> stored_tokens BadText = None \<and>
   fst (readAll corrupted_store) = Inr [token_a] \<and> fst (readAll corrupted_store) \<noteq> Inr []"
  using readAll_serves_stale_cache[of corrupted_store "[token_a]" BadText]
  by (simp add: world_defs eval_defs prop_defs)

text \<open>
  The cached sequence is served whatever it is: after a successful \<^verbatim>\<open>writeAll([])\<close>
  the cache holds the empty sequence, and that is what the read of the damaged file returns.
\<close>

lemma readAll_serves_empty_cache:
  "cache (snd (writeAll (JArr []) new_store)) = Some [] \<and>
   store_file emptied_then_corrupted = Some BadText \<and> \<not> isCacheValid emptied_then_corrupted \<and>
   fst (readAll emptied_then_corrupted) = Inr []"
  by (simp add: world_defs eval_defs)

section \<open>Bootstrap and salt\<close>

text \<open>
  C8. On a store with no store file and no salt loaded, when the file-system calls
  succeed and the salt generator returns a non-empty string \<open>s\<close>: the bootstrap creates
  a store file that holds the salt \<open>s\<close> and an empty token sequence; a second bootstrap
  leaves the file as it is and generates no salt; \<^verbatim>\<open>getSalt\<close> returns \<open>s\<close>, leaves the
  file as it is and generates no salt. From then on, in every state in which the store
  instance holds \<open>s\<close>, \<^verbatim>\<open>getSalt\<close> returns \<open>s\<close> and changes nothing, and no read and
  no sequence of writes and merges changes the salt that the instance holds.
\<close>

theorem bootstrap_creates_salt_once:
  assumes "faults w = []" and "store_file w = None" and "salt w = JNull"
      and "salt_source w (salts_drawn w) = s" and "s \<noteq> []"
  shows "\<exists>w1. ensureFileExists w = (Inr (), w1) \<and>
           store_file w1 = Some (JSON_stringify (store_document (JStr s) [])) \<and>
           (\<exists>w2. ensureFileExists w1 = (Inr (), w2) \<and> store_file w2 = store_file w1 \<and>
                  salts_drawn w2 = salts_drawn w1) \<and>
           (\<exists>w3. getSalt w1 = (Inr (JStr s), w3) \<and> store_file w3 = store_file w1 \<and>
                  salts_drawn w3 = salts_drawn w1 \<and> salt w3 = JStr s) \<and>
           (\<forall>v. salt v = JStr s \<longrightarrow>
                  getSalt v = (Inr (JStr s), v) \<and> salt (snd (readAll v)) = JStr s \<and>
                  (\<forall>ops. salt (run_in_order ops v) = JStr s))"
proof -
  have later: "\<forall>v. salt v = JStr s \<longrightarrow>
                  getSalt v = (Inr (JStr s), v) \<and> salt (snd (readAll v)) = JStr s \<and>
                  (\<forall>ops. salt (run_in_order ops v) = JStr s)"
  proof (intro allI impI conjI)
    fix v :: world and ops assume v: "salt v = JStr s"
    then have t: "truthy (salt v)" using assms(5) by simp
    show "getSalt v = (Inr (JStr s), v)" using getSalt_loaded[OF t] v by simp
    show "salt (snd (readAll v)) = JStr s"
      using readAll_salt[of v "fst (readAll v)" "snd (readAll v)"] v by simp
    show "salt (run_in_order ops v) = JStr s" using run_in_order_salt[OF t] v by simp
  qed
  show ?thesis
    using assms later
    by (simp add: ensureFileExists_absent ensureFileExists_present getSalt_def io_bind_def io_catch_def
        fs_readFile_quiet JSON_parse_io_def get_prop_io_def set_salt_def JSON_stringify_def store_document_def)
qed

text \<open>The theorem at a new store, whose generator returns \<open>salt-0\<close> first.\<close>

theorem bootstrap_creates_salt_once_witness:
  "faults new_store = [] \<and> store_file new_store = None \<and> salt new_store = JNull \<and>
   salt_source new_store (salts_drawn new_store) = ''salt-0'' \<and>
   store_file (snd (ensureFileExists new_store)) =
     Some (JsonText (JObj [(''salt'', JStr ''salt-0''), (''tokens'', JArr [])])) \<and>
   fst (getSalt (snd (ensureFileExists new_store))) = Inr (JStr ''salt-0'') \<and>
   fst (getSalt (snd (getSalt (snd (ensureFileExists new_store))))) = Inr (JStr ''salt-0'')"
  using bootstrap_creates_salt_once[of new_store "''salt-0''"]
  by (simp add: world_defs eval_defs)

section \<open>The atomic file writer\<close>




section \<open>The cache after a failed write\<close>

text \<open>
  C10. On a store whose queue is fulfilled: if the atomic write of \<^verbatim>\<open>writeAll\<close> fails,
  after the bootstrap and the salt lookup have returned, then \<^verbatim>\<open>writeAll\<close> logs the
  failure and leaves the cache, its timestamp and the health flag as they were before
  the call. If the atomic write of \<^verbatim>\<open>mergeActiveTokens\<close> fails, after the merge has
  produced a sequence to write and the bootstrap and the salt lookup have returned, then
  \<^verbatim>\<open>mergeActiveTokens\<close> logs the failure and leaves the cache, its timestamp and the
  health flag as they were when the write step began, that is as the read at the start
  of the merge left them. In both cases the cache is not set to the sequence that could
  not be written.
\<close>

theorem failed_write_keeps_cache:
  assumes "writeQueue w = Inr ()"
  shows "(ensureFileExists w = (Inr (), w1) \<and> getSalt w1 = (Inr s, w2) \<and>
          atomicWrite (JSON_stringify (store_document s (normalize_tokens tokens))) w2 = (Inl e, w3) \<longrightarrow>
            writeAll tokens w =
              (Inr (), w3\<lparr>log := log w3 @ [(ERROR, Save_failed e), (ERROR, Write_queue_failed e)],
                          writeQueue := Inr ()\<rparr>) \<and>
            cache w3 = cache w \<and> cacheTime w3 = cacheTime w \<and> lastReadOk w3 = lastReadOk w) \<and>
         (mergeOperation activeTokens tokenToUpdate w = (Inr (Some mergedTokens), v0) \<and>
          ensureFileExists v0 = (Inr (), v1) \<and> getSalt v1 = (Inr s', v2) \<and>
          atomicWrite (JSON_stringify (store_document s' mergedTokens)) v2 = (Inl e', v3) \<longrightarrow>
            mergeActiveTokens activeTokens tokenToUpdate w =
              (Inr (), v3\<lparr>log := log v3 @ [(ERROR, Save_failed e')], writeQueue := Inr ()\<rparr>) \<and>
            cache v3 = cache v0 \<and> cacheTime v3 = cacheTime v0 \<and> lastReadOk v3 = lastReadOk v0)"
proof (intro conjI impI)
  assume h: "ensureFileExists w = (Inr (), w1) \<and> getSalt w1 = (Inr s, w2) \<and>
          atomicWrite (JSON_stringify (store_document s (normalize_tokens tokens))) w2 = (Inl e, w3)"
  then have "kept w w1" "kept w1 w2" "kept w2 w3"
    by (auto dest: ensureFileExists_kept getSalt_kept atomicWrite_kept)
  then show "cache w3 = cache w" "cacheTime w3 = cacheTime w" "lastReadOk w3 = lastReadOk w"
    by (simp_all add: kept_defs)
  show "writeAll tokens w =
              (Inr (), w3\<lparr>log := log w3 @ [(ERROR, Save_failed e), (ERROR, Write_queue_failed e)],
                          writeQueue := Inr ()\<rparr>)"
    using h assms
    by (simp add: writeAll_def settle_queue_def promise_then_def writeOperation_def io_bind_def io_catch_def
          io_throw_def log_call_def)
next
  assume h: "mergeOperation activeTokens tokenToUpdate w = (Inr (Some mergedTokens), v0) \<and>
          ensureFileExists v0 = (Inr (), v1) \<and> getSalt v1 = (Inr s', v2) \<and>
          atomicWrite (JSON_stringify (store_document s' mergedTokens)) v2 = (Inl e', v3)"
  then have "kept v0 v1" "kept v1 v2" "kept v2 v3"
    by (auto dest: ensureFileExists_kept getSalt_kept atomicWrite_kept)
  then show "cache v3 = cache v0" "cacheTime v3 = cacheTime v0" "lastReadOk v3 = lastReadOk v0"
    by (simp_all add: kept_defs)
  show "mergeActiveTokens activeTokens tokenToUpdate w =
              (Inr (), v3\<lparr>log := log v3 @ [(ERROR, Save_failed e')], writeQueue := Inr ()\<rparr>)"
    using h assms
    by (simp add: mergeActiveTokens_def settle_queue_def promise_then_def merge_and_write_def io_bind_def
          io_catch_def io_throw_def log_call_def)
qed

text \<open>
  The theorem at a store that holds \<open>token_a\<close> in its file and in its cache, on a disk
  where the temporary file cannot be opened: after the failed write of \<open>token_b\<close> and
  after the failed merge the cache still holds \<open>token_a\<close>.
\<close>

theorem failed_write_keeps_cache_witness:
  "writeQueue write_fails_store = Inr () \<and>
   fst (atomicWrite (JSON_stringify (store_document (JStr ''salt-0'') [token_b]))
          (snd (getSalt (snd (ensureFileExists write_fails_store))))) = Inl (FsError EIO) \<and>
   cache (snd (writeAll (JArr [token_b]) write_fails_store)) = Some [token_a] \<and>
   fst (mergeOperation (JArr [token_a_active]) JNull write_fails_store) =
     Inr (Some [JObj [(''refresh_token'', JStr ''a''), (''access_token'', JStr ''new'')]]) \<and>
   cache (snd (mergeActiveTokens (JArr [token_a_active]) JNull write_fails_store)) = Some [token_a] \<and>
   lastReadOk (snd (mergeActiveTokens (JArr [token_a_active]) JNull write_fails_store))"
  using failed_write_keeps_cache[where w = write_fails_store and tokens = "JArr [token_b]"
      and ?w1.0 = "snd (ensureFileExists write_fails_store)" and s = "JStr ''salt-0''"
      and ?w2.0 = "snd (getSalt (snd (ensureFileExists write_fails_store)))"
      and e = "FsError EIO"
      and ?w3.0 = "snd (atomicWrite (JSON_stringify (store_document (JStr ''salt-0'') [token_b]))
          (snd (getSalt (snd (ensureFileExists write_fails_store)))))"
      and activeTokens = "JArr [token_a_active]" and tokenToUpdate = JNull
      and mergedTokens = "[JObj [(''refresh_token'', JStr ''a''), (''access_token'', JStr ''new'')]]"
      and ?v0.0 = "snd (mergeOperation (JArr [token_a_active]) JNull write_fails_store)"
      and ?v1.0 = "snd (ensureFileExists (snd (mergeOperation (JArr [token_a_active]) JNull write_fails_store)))"
      and s' = "JStr ''salt-0''"
      and ?v2.0 = "snd (getSalt (snd (ensureFileExists
                      (snd (mergeOperation (JArr [token_a_active]) JNull write_fails_store)))))"
      and e' = "FsError EIO"
      and ?v3.0 = "snd (atomicWrite
          (JSON_stringify (store_document (JStr ''salt-0'')
             [JObj [(''refresh_token'', JStr ''a''), (''access_token'', JStr ''new'')]]))
          (snd (getSalt (snd (ensureFileExists
             (snd (mergeOperation (JArr [token_a_active]) JNull write_fails_store)))))))"]
  by (simp add: world_defs eval_defs)



end
